theory Spec2Isabelle
  imports Main "HOL-Library.Multiset"
begin

unbundle bit_operations_syntax

section \<open>Python values used by both programs\<close>

text \<open>
  Strings are lists of characters; a \<^typ>\<open>char\<close> stands for a code point below 256.
  Python integers are unbounded and are modelled by \<^typ>\<open>int\<close>, whose \<open>drop_bit\<close> and
  \<open>AND\<close> agree with Python's \<open>>>\<close> and \<open>&\<close> (two's complement, floor shift).
  Exceptions are values; a \<open>KeyError\<close> records the dictionary that raised it.
\<close>

datatype error =
    ValueError
  | IndexError
  | AttributeError
  | KeyError_registers string
  | KeyError_opcodes string
  | KeyError_func_codes string
  | KeyError_label_map string

text \<open>
  The characters \<open>str.strip\<close> and \<open>str.split\<close> treat as white space, among the
  code points below 256; \<open>int\<close> skips the same ones around a literal, except the four
  separators \<open>\x1c\<close> to \<open>\x1f\<close>.
\<close>

definition is_space :: "char \<Rightarrow> bool" where
  "is_space c = ((of_char c :: nat) \<in> {9, 10, 11, 12, 13, 28, 29, 30, 31, 32, 133, 160})"

definition is_int_space :: "char \<Rightarrow> bool" where
  "is_int_space c = ((of_char c :: nat) \<in> {9, 10, 11, 12, 13, 32, 133, 160})"

definition strip_with :: "(char \<Rightarrow> bool) \<Rightarrow> string \<Rightarrow> string" where
  "strip_with sp s = rev (dropWhile sp (rev (dropWhile sp s)))"

definition strip :: "string \<Rightarrow> string" where
  "strip s = strip_with is_space s"

text \<open>The value of a digit character in \<open>int(s, base)\<close>: \<open>0-9\<close>, then letters of either case.\<close>

definition digit_val :: "char \<Rightarrow> nat option" where
  "digit_val c =
     (let n = (of_char c :: nat) in
      if 48 \<le> n \<and> n \<le> 57 then Some (n - 48)
      else if 97 \<le> n \<and> n \<le> 122 then Some (n - 87)
      else if 65 \<le> n \<and> n \<le> 90 then Some (n - 55)
      else None)"

text \<open>
  The digits of an integer literal: at least one digit, single underscores only between
  digits. \<open>prev\<close> tells whether the character just read was a digit.
\<close>

fun digits_acc :: "nat \<Rightarrow> bool \<Rightarrow> int \<Rightarrow> string \<Rightarrow> int option" where
  "digits_acc b prev acc [] = (if prev then Some acc else None)"
| "digits_acc b prev acc (c # cs) =
     (if c = CHR ''_'' then (if prev then digits_acc b False acc cs else None)
      else (case digit_val c of
              None \<Rightarrow> None
            | Some d \<Rightarrow> if d < b then digits_acc b True (acc * int b + int d) cs else None))"

text \<open>
  \<open>int(s, base)\<close> for base 2, 10 or 16: surrounding white space, an optional sign, the
  base prefix (\<open>0x\<close> for 16, \<open>0b\<close> for 2, either case, followed by at most one
  underscore), then the digits. \<open>None\<close> is Python's \<open>ValueError\<close>. The interpreter's
  limit on the number of decimal digits is not modelled.
\<close>

definition strip_prefix :: "nat \<Rightarrow> string \<Rightarrow> string" where
  "strip_prefix b s =
     (case s of
        c0 # c1 # rest \<Rightarrow>
          if c0 = CHR ''0'' \<and>
             ((b = 16 \<and> (c1 = CHR ''x'' \<or> c1 = CHR ''X'')) \<or>
              (b = 2 \<and> (c1 = CHR ''b'' \<or> c1 = CHR ''B'')))
          then (case rest of c2 # rest' \<Rightarrow> if c2 = CHR ''_'' then rest' else rest | [] \<Rightarrow> rest)
          else s
      | _ \<Rightarrow> s)"

definition py_int :: "nat \<Rightarrow> string \<Rightarrow> int option" where
  "py_int b s =
     (case strip_with is_int_space s of
        [] \<Rightarrow> None
      | c # cs \<Rightarrow>
          if c = CHR ''-'' then map_option uminus (digits_acc b False 0 (strip_prefix b cs))
          else if c = CHR ''+'' then digits_acc b False 0 (strip_prefix b cs)
          else digits_acc b False 0 (strip_prefix b (c # cs)))"


section \<open>The scheduler (scheduler.py)\<close>

subsection \<open>Decoder\<close>

definition is_special :: "string \<Rightarrow> error + bool" where
  "is_special hex_instr =
     (if hex_instr = ''00000000'' then Inr False
      else (case py_int 16 hex_instr of
              None \<Rightarrow> Inl ValueError
            | Some instr_int \<Rightarrow>
                let opcode = (drop_bit 26 instr_int) AND 0x3F
                in Inr (opcode \<in> {2, 3, 4, 5, 35, 43})))"

text \<open>
  The dictionary returned by \<open>decode_mips\<close>, with its keys \<open>type\<close>, \<open>opcode\<close>,
  \<open>funct\<close> (present for R-type only), \<open>reads\<close> and \<open>writes\<close>.
\<close>

record decoded =
  dtype :: string
  dopcode :: int
  dfunct :: "int option"
  reads :: "int set"
  writes :: "int set"

definition decode_mips :: "string \<Rightarrow> error + decoded" where
  "decode_mips hex_instr =
     (if hex_instr = ''00000000''
      then Inr \<lparr>dtype = ''nop'', dopcode = 0, dfunct = None, reads = {}, writes = {}\<rparr>
      else (case py_int 16 hex_instr of
              None \<Rightarrow> Inl ValueError
            | Some instr \<Rightarrow>
                let opcode = (drop_bit 26 instr) AND 0x3F in
                if opcode = 0 then
                  (let funct = instr AND 0x3F;
                       rs = (drop_bit 21 instr) AND 0x1F;
                       rt = (drop_bit 16 instr) AND 0x1F;
                       rd = (drop_bit 11 instr) AND 0x1F
                   in if funct \<in> {0, 2, 3}
                      then Inr \<lparr>dtype = ''R'', dopcode = opcode, dfunct = Some funct,
                                 reads = {rt}, writes = {rd}\<rparr>
                      else if funct = 8
                      then Inr \<lparr>dtype = ''R'', dopcode = opcode, dfunct = Some funct,
                                 reads = {rs}, writes = {}\<rparr>
                      else Inr \<lparr>dtype = ''R'', dopcode = opcode, dfunct = Some funct,
                                 reads = {rs, rt}, writes = {rd}\<rparr>)
                else if opcode \<in> {2, 3} then
                  (if opcode = 3
                   then Inr \<lparr>dtype = ''J'', dopcode = opcode, dfunct = None,
                              reads = {}, writes = {31}\<rparr>
                   else Inr \<lparr>dtype = ''J'', dopcode = opcode, dfunct = None,
                              reads = {}, writes = {}\<rparr>)
                else
                  (let rs = (drop_bit 21 instr) AND 0x1F;
                       rt = (drop_bit 16 instr) AND 0x1F
                   in if opcode \<in> {4, 5}
                      then Inr \<lparr>dtype = ''I'', dopcode = opcode, dfunct = None,
                                 reads = {rs, rt}, writes = {}\<rparr>
                      else if opcode = 35
                      then Inr \<lparr>dtype = ''I'', dopcode = opcode, dfunct = None,
                                 reads = {rs}, writes = {rt}\<rparr>
                      else if opcode = 43
                      then Inr \<lparr>dtype = ''I'', dopcode = opcode, dfunct = None,
                                 reads = {rs, rt}, writes = {}\<rparr>
                      else Inr \<lparr>dtype = ''I'', dopcode = opcode, dfunct = None,
                                 reads = {rs}, writes = {rt}\<rparr>)))"

subsection \<open>Hazard predicates\<close>

definition can_schedule_in_slot1 :: "string \<Rightarrow> string \<Rightarrow> error + bool" where
  "can_schedule_in_slot1 candidate_hex special_hex =
     (case decode_mips candidate_hex of
        Inl e \<Rightarrow> Inl e
      | Inr cand \<Rightarrow>
          (case decode_mips special_hex of
             Inl e \<Rightarrow> Inl e
           | Inr spec \<Rightarrow>
               if writes cand \<inter> reads spec \<noteq> {} then Inr False
               else if writes spec \<inter> reads cand \<noteq> {} then Inr False
               else Inr True))"

definition safe_pair :: "string \<Rightarrow> string \<Rightarrow> error + bool" where
  "safe_pair hex1 hex2 =
     (case decode_mips hex1 of
        Inl e \<Rightarrow> Inl e
      | Inr inst1 \<Rightarrow>
          (case decode_mips hex2 of
             Inl e \<Rightarrow> Inl e
           | Inr inst2 \<Rightarrow>
               if writes inst1 \<inter> reads inst2 \<noteq> {} then Inr False
               else if writes inst2 \<inter> reads inst1 \<noteq> {} then Inr False
               else Inr True))"

subsection \<open>Packet scheduler\<close>

text \<open>An instruction is the pair (full line, hex string) built by \<open>read_instructions\<close>.\<close>

type_synonym instruction = "string \<times> string"

definition nop_line :: string where
  "nop_line = ''binary: 00000000000000000000000000000000, hex: 00000000''"

text \<open>
  The inner \<open>for j in range(i + 1, n)\<close> of a special anchor, over the indices still to
  visit: the first unused, non-special, hazard-safe index, if any. The indices passed are
  below \<open>n\<close>, the length of both lists, so \<open>!\<close> reads in range.
\<close>

fun scan_special :: "instruction list \<Rightarrow> bool list \<Rightarrow> string \<Rightarrow> nat list \<Rightarrow> error + nat option"
where
  "scan_special instructions used curr_hex [] = Inr None"
| "scan_special instructions used curr_hex (j # js) =
     (if \<not> used ! j then
        (case is_special (snd (instructions ! j)) of
           Inl e \<Rightarrow> Inl e
         | Inr sp \<Rightarrow>
             if sp then scan_special instructions used curr_hex js
             else (case can_schedule_in_slot1 (snd (instructions ! j)) curr_hex of
                     Inl e \<Rightarrow> Inl e
                   | Inr ok \<Rightarrow>
                       if ok then Inr (Some j)
                       else scan_special instructions used curr_hex js))
      else scan_special instructions used curr_hex js)"

text \<open>The inner loop of a non-special anchor: the first unused index safe to pair.\<close>

fun scan_plain :: "instruction list \<Rightarrow> bool list \<Rightarrow> string \<Rightarrow> nat list \<Rightarrow> error + nat option"
where
  "scan_plain instructions used curr_hex [] = Inr None"
| "scan_plain instructions used curr_hex (j # js) =
     (if \<not> used ! j then
        (case safe_pair curr_hex (snd (instructions ! j)) of
           Inl e \<Rightarrow> Inl e
         | Inr ok \<Rightarrow>
             if ok then Inr (Some j)
             else scan_plain instructions used curr_hex js)
      else scan_plain instructions used curr_hex js)"

text \<open>The \<open>while i < n\<close> loop, with the flag array and the packet list as state.\<close>

function schedule_loop ::
  "instruction list \<Rightarrow> bool list \<Rightarrow> (string \<times> string) list \<Rightarrow> nat
     \<Rightarrow> error + (string \<times> string) list"
where
  "schedule_loop instructions used packets i =
     (if i < length instructions then
        (if used ! i then schedule_loop instructions used packets (i + 1)
         else
           (let curr_line = fst (instructions ! i); curr_hex = snd (instructions ! i) in
            case is_special curr_hex of
              Inl e \<Rightarrow> Inl e
            | Inr sp \<Rightarrow>
                if sp then
                  (case scan_special instructions used curr_hex [i + 1 ..< length instructions] of
                     Inl e \<Rightarrow> Inl e
                   | Inr cand \<Rightarrow>
                       (case cand of
                          Some candidate_index \<Rightarrow>
                            schedule_loop instructions
                              (used[candidate_index := True, i := True])
                              (packets @ [(fst (instructions ! candidate_index), curr_line)])
                              (i + 1)
                        | None \<Rightarrow>
                            schedule_loop instructions (used[i := True])
                              (packets @ [(nop_line, curr_line)]) (i + 1)))
                else
                  (case scan_plain instructions used curr_hex [i + 1 ..< length instructions] of
                     Inl e \<Rightarrow> Inl e
                   | Inr cand \<Rightarrow>
                       (case cand of
                          Some candidate_index \<Rightarrow>
                            schedule_loop instructions
                              (used[i := True, candidate_index := True])
                              (packets @ [(curr_line, fst (instructions ! candidate_index))])
                              (i + 1)
                        | None \<Rightarrow>
                            schedule_loop instructions (used[i := True])
                              (packets @ [(curr_line, nop_line)]) (i + 1)))))
      else Inr packets)"
  by pat_completeness auto
termination
  by (relation "measure (\<lambda>(instructions, used, packets, i). length instructions - i)") auto

definition schedule_instructions_enhanced ::
  "instruction list \<Rightarrow> error + (string \<times> string) list" where
  "schedule_instructions_enhanced instructions =
     schedule_loop instructions (replicate (length instructions) False) [] 0"

subsection \<open>The same loop, recording indices\<close>

text \<open>
  A packet of the trace holds, for each slot, the index of the input instruction placed
  there (\<open>None\<close> for the synthesized NOP), and the index \<open>i\<close> of the anchor that
  opened it. The loop is \<open>schedule_loop\<close> with the appended lines replaced by the
  indices they are read from.
\<close>

type_synonym packet_trace = "nat option \<times> nat option \<times> nat"

function trace_loop ::
  "instruction list \<Rightarrow> bool list \<Rightarrow> packet_trace list \<Rightarrow> nat \<Rightarrow> error + packet_trace list"
where
  "trace_loop instructions used packets i =
     (if i < length instructions then
        (if used ! i then trace_loop instructions used packets (i + 1)
         else
           (let curr_hex = snd (instructions ! i) in
            case is_special curr_hex of
              Inl e \<Rightarrow> Inl e
            | Inr sp \<Rightarrow>
                if sp then
                  (case scan_special instructions used curr_hex [i + 1 ..< length instructions] of
                     Inl e \<Rightarrow> Inl e
                   | Inr cand \<Rightarrow>
                       (case cand of
                          Some candidate_index \<Rightarrow>
                            trace_loop instructions
                              (used[candidate_index := True, i := True])
                              (packets @ [(Some candidate_index, Some i, i)]) (i + 1)
                        | None \<Rightarrow>
                            trace_loop instructions (used[i := True])
                              (packets @ [(None, Some i, i)]) (i + 1)))
                else
                  (case scan_plain instructions used curr_hex [i + 1 ..< length instructions] of
                     Inl e \<Rightarrow> Inl e
                   | Inr cand \<Rightarrow>
                       (case cand of
                          Some candidate_index \<Rightarrow>
                            trace_loop instructions
                              (used[i := True, candidate_index := True])
                              (packets @ [(Some i, Some candidate_index, i)]) (i + 1)
                        | None \<Rightarrow>
                            trace_loop instructions (used[i := True])
                              (packets @ [(Some i, None, i)]) (i + 1)))))
      else Inr packets)"
  by pat_completeness auto
termination
  by (relation "measure (\<lambda>(instructions, used, packets, i). length instructions - i)") auto

definition schedule_trace :: "instruction list \<Rightarrow> error + packet_trace list" where
  "schedule_trace instructions =
     trace_loop instructions (replicate (length instructions) False) [] 0"

text \<open>The line a slot of the trace stands for, and the packet of lines of a trace entry.\<close>

definition slot_line :: "instruction list \<Rightarrow> nat option \<Rightarrow> string" where
  "slot_line instructions s = (case s of None \<Rightarrow> nop_line | Some k \<Rightarrow> fst (instructions ! k))"

definition packet_lines :: "instruction list \<Rightarrow> packet_trace \<Rightarrow> string \<times> string" where
  "packet_lines instructions p =
     (slot_line instructions (fst p), slot_line instructions (fst (snd p)))"

text \<open>The indices held by the slots of a trace, in packet order.\<close>

definition slot_indices :: "packet_trace \<Rightarrow> nat list" where
  "slot_indices p = (case fst p of None \<Rightarrow> [] | Some a \<Rightarrow> [a]) @
                    (case fst (snd p) of None \<Rightarrow> [] | Some b \<Rightarrow> [b])"

definition anchor :: "packet_trace \<Rightarrow> nat" where
  "anchor p = snd (snd p)"

subsection \<open>Properties of packets\<close>

text \<open>Two hex words decode and neither writes a register the other reads.\<close>

definition hazard_free :: "string \<Rightarrow> string \<Rightarrow> bool" where
  "hazard_free h1 h2 =
     (case decode_mips h1 of
        Inl e \<Rightarrow> False
      | Inr d1 \<Rightarrow>
          (case decode_mips h2 of
             Inl e \<Rightarrow> False
           | Inr d2 \<Rightarrow> writes d1 \<inter> reads d2 = {} \<and> writes d2 \<inter> reads d1 = {}))"

text \<open>
  What every packet of a trace satisfies: the anchor is an input index held by one of the
  slots, slot 1 never holds a special instruction, and two paired instructions are
  hazard-free.
\<close>

definition packet_good :: "instruction list \<Rightarrow> packet_trace \<Rightarrow> bool" where
  "packet_good instrs p =
     (anchor p < length instrs \<and> anchor p \<in> set (slot_indices p) \<and>
      (case fst p of None \<Rightarrow> True
       | Some a \<Rightarrow> a < length instrs \<and> is_special (snd (instrs ! a)) = Inr False) \<and>
      (case fst (snd p) of None \<Rightarrow> True
       | Some b \<Rightarrow> b < length instrs \<and> (is_special (snd (instrs ! b)) = Inr False \<or> is_special (snd (instrs ! b)) = Inr True)) \<and>
      (case fst p of None \<Rightarrow> True
       | Some a \<Rightarrow> (case fst (snd p) of None \<Rightarrow> True
                   | Some b \<Rightarrow> hazard_free (snd (instrs ! a)) (snd (instrs ! b)))))"

text \<open>The loop invariant of the scheduler, on the flag array, the trace and the index.\<close>

definition sched_inv :: "nat \<Rightarrow> bool list \<Rightarrow> packet_trace list \<Rightarrow> nat \<Rightarrow> bool" where
  "sched_inv n used tr i \<longleftrightarrow>
     length used = n \<and> i \<le> n \<and>
     distinct (concat (map slot_indices tr)) \<and>
     set (concat (map slot_indices tr)) = {k. k < n \<and> used ! k} \<and>
     (\<forall>k<i. used ! k) \<and>
     sorted_wrt (<) (map anchor tr) \<and> (\<forall>p\<in>set tr. anchor p < i)"


text \<open>An instruction word as the assembler prints it: eight hexadecimal digits.\<close>

definition is_hex_digit :: "char \<Rightarrow> bool" where
  "is_hex_digit c = (c \<in> set ''0123456789abcdefABCDEF'')"

definition is_hex8 :: "string \<Rightarrow> bool" where
  "is_hex8 s = (length s = 8 \<and> list_all is_hex_digit s)"

text \<open>
  The hex strings on which neither \<open>is_special\<close> nor \<open>decode_mips\<close> raises: the literal
  NOP word, and every string \<open>int(hex_instr, 16)\<close> accepts.
\<close>

definition parses_hex :: "string \<Rightarrow> bool" where
  "parses_hex h = (h = ''00000000'' \<or> py_int 16 h \<noteq> None)"

section \<open>The assembler (Assembler.py)\<close>

subsection \<open>String operations of Python used by the assembler\<close>

definition bind_err :: "error + 'a \<Rightarrow> ('a \<Rightarrow> error + 'b) \<Rightarrow> error + 'b" where
  "bind_err m f = (case m of Inl e \<Rightarrow> Inl e | Inr x \<Rightarrow> f x)"

text \<open>\<open>str.lower\<close> on code points below 256: ASCII and Latin-1 capital letters.\<close>

definition lower_char :: "char \<Rightarrow> char" where
  "lower_char c =
     (let n = (of_char c :: nat) in
      if (65 \<le> n \<and> n \<le> 90) \<or> (192 \<le> n \<and> n \<le> 222 \<and> n \<noteq> 215)
      then char_of (n + 32) else c)"

definition lower :: "string \<Rightarrow> string" where
  "lower s = map lower_char s"

text \<open>\<open>s.split()\<close>: the maximal runs of characters that are not white space.\<close>

fun split_aux :: "string \<Rightarrow> string \<Rightarrow> string list" where
  "split_aux cur [] = (if cur = [] then [] else [cur])"
| "split_aux cur (c # cs) =
     (if is_space c then (if cur = [] then split_aux [] cs else cur # split_aux [] cs)
      else split_aux (cur @ [c]) cs)"

definition split_ws :: "string \<Rightarrow> string list" where
  "split_ws s = split_aux [] s"

text \<open>\<open>s.replace(',', ' ')\<close>.\<close>

definition replace_commas :: "string \<Rightarrow> string" where
  "replace_commas s = map (\<lambda>c. if c = CHR '','' then CHR '' '' else c) s"

definition endswith_colon :: "string \<Rightarrow> bool" where
  "endswith_colon s = (s \<noteq> [] \<and> last s = CHR '':'')"

definition startswith_hash :: "string \<Rightarrow> bool" where
  "startswith_hash s = (s \<noteq> [] \<and> hd s = CHR ''#'')"

text \<open>
  \<open>s.splitlines()\<close>: lines end at a line boundary (\<open>\n\<close>, \<open>\r\<close>, \<open>\r\n\<close>, \<open>\v\<close>,
  \<open>\f\<close>, \<open>\x1c\<close>, \<open>\x1d\<close>, \<open>\x1e\<close>, \<open>\x85\<close>), and there is no empty last line.
\<close>

definition newline :: char where
  "newline = CHR 0x0A"

definition is_linebreak :: "char \<Rightarrow> bool" where
  "is_linebreak c = ((of_char c :: nat) \<in> {10, 11, 12, 13, 28, 29, 30, 133})"

fun splitlines_aux :: "string \<Rightarrow> string \<Rightarrow> string list" where
  "splitlines_aux cur [] = (if cur = [] then [] else [cur])"
| "splitlines_aux cur [c] = (if is_linebreak c then [cur] else [cur @ [c]])"
| "splitlines_aux cur (c # d # cs) =
     (if c = CHR 0x0D \<and> d = CHR 0x0A then cur # splitlines_aux [] cs
      else if is_linebreak c then cur # splitlines_aux [] (d # cs)
      else splitlines_aux (cur @ [c]) (d # cs))"

definition splitlines :: "string \<Rightarrow> string list" where
  "splitlines s = splitlines_aux [] s"

subsection \<open>Number formatting\<close>

definition digit_char :: "int \<Rightarrow> char" where
  "digit_char d = (if d < 10 then char_of (48 + d) else char_of (55 + d))"

text \<open>
  The digits of a non-negative integer in the given base, most significant first
  (upper-case letters above 9).
\<close>

function digits_str :: "int \<Rightarrow> int \<Rightarrow> string" where
  "digits_str b n =
     (if n < b \<or> b < 2 then [digit_char n]
      else digits_str b (n div b) @ [digit_char (n mod b)])"
  by pat_completeness auto
termination
  by (relation "measure (\<lambda>(b, n). nat n)") (auto intro: int_div_less_self)

definition zero_pad :: "nat \<Rightarrow> string \<Rightarrow> string" where
  "zero_pad w s = replicate (w - length s) (CHR ''0'') @ s"

text \<open>
  \<open>format(x, '0wb')\<close> and \<open>f"{x:0wX}"\<close>: the digits padded with zeros to width \<open>w\<close>;
  a negative number keeps its sign in front and the sign counts for the width.
\<close>

definition format_int :: "int \<Rightarrow> nat \<Rightarrow> int \<Rightarrow> string" where
  "format_int b w x =
     (if x < 0 then CHR ''-'' # zero_pad (w - 1) (digits_str b (- x))
      else zero_pad w (digits_str b x))"

subsection \<open>Tables\<close>

definition opcodes :: "string \<rightharpoonup> string" where
  "opcodes = map_of
     [(''add'', ''000000''), (''sub'', ''000000''), (''and'', ''000000''), (''or'', ''000000''),
      (''xor'', ''000000''), (''nor'', ''000000''), (''slt'', ''000000''), (''sltu'', ''000000''),
      (''sll'', ''000000''), (''srl'', ''000000''), (''sra'', ''000000''), (''sllv'', ''000000''),
      (''srlv'', ''000000''), (''srav'', ''000000''), (''jr'', ''000000''), (''addu'', ''000000''),
      (''subu'', ''000000''), (''slti'', ''001010''), (''sltiu'', ''001011''), (''addi'', ''001000''),
      (''addiu'', ''001001''), (''andi'', ''001100''), (''ori'', ''001101''), (''xori'', ''001110''),
      (''lw'', ''100011''), (''sw'', ''101011''), (''beq'', ''000100''), (''bne'', ''000101''),
      (''j'', ''000010''), (''jal'', ''000011'')]"

definition func_codes :: "string \<rightharpoonup> string" where
  "func_codes = map_of
     [(''add'', ''100000''), (''sub'', ''100010''), (''and'', ''100100''), (''or'', ''100101''),
      (''xor'', ''100110''), (''nor'', ''100111''), (''slt'', ''101010''), (''sltu'', ''101011''),
      (''sll'', ''000000''), (''srl'', ''000010''), (''sra'', ''000011''), (''sllv'', ''000100''),
      (''srlv'', ''000110''), (''srav'', ''000111''), (''jr'', ''001000''), (''addu'', ''100001''),
      (''subu'', ''100011'')]"

text \<open>\<open>registers = {f"${i}": f"{i:05b}" for i in range(32)}\<close>.\<close>

definition registers :: "string \<rightharpoonup> string" where
  "registers = map_of (map (\<lambda>i. (CHR ''$'' # digits_str 10 i, format_int 2 5 i)) [0 .. 31])"

text \<open>Subscripting: a list out of range raises \<open>IndexError\<close>, a dictionary \<open>KeyError\<close>.\<close>

definition operand :: "string list \<Rightarrow> nat \<Rightarrow> error + string" where
  "operand operands k = (if k < length operands then Inr (operands ! k) else Inl IndexError)"

definition registers_at :: "string \<Rightarrow> error + string" where
  "registers_at r = (case registers r of None \<Rightarrow> Inl (KeyError_registers r) | Some v \<Rightarrow> Inr v)"

definition opcodes_at :: "string \<Rightarrow> error + string" where
  "opcodes_at k = (case opcodes k of None \<Rightarrow> Inl (KeyError_opcodes k) | Some v \<Rightarrow> Inr v)"

definition func_codes_at :: "string \<Rightarrow> error + string" where
  "func_codes_at k = (case func_codes k of None \<Rightarrow> Inl (KeyError_func_codes k) | Some v \<Rightarrow> Inr v)"

text \<open>
  The label table is a dictionary from label names to addresses, kept as an association
  list whose first binding of a key is the current one. The parameter \<open>label_map\<close> may
  be \<open>None\<close>; a test \<open>if label_map\<close> fails for \<open>None\<close> and for the empty dictionary.
\<close>

type_synonym label_table = "(string \<times> int) list"

definition truthy :: "label_table option \<Rightarrow> bool" where
  "truthy label_map = (case label_map of None \<Rightarrow> False | Some m \<Rightarrow> m \<noteq> [])"

definition label_map_at :: "label_table option \<Rightarrow> string \<Rightarrow> error + int" where
  "label_map_at label_map k =
     (case map_of (case label_map of None \<Rightarrow> [] | Some m \<Rightarrow> m) k of
        None \<Rightarrow> Inl (KeyError_label_map k)
      | Some v \<Rightarrow> Inr v)"

definition int_of :: "nat \<Rightarrow> string \<Rightarrow> error + int" where
  "int_of b s = (case py_int b s of None \<Rightarrow> Inl ValueError | Some v \<Rightarrow> Inr v)"

subsection \<open>Encoder\<close>

definition parse_immediate :: "string \<Rightarrow> error + int" where
  "parse_immediate v = (if take 2 (lower v) = ''0x'' then int_of 16 v else int_of 10 v)"

definition parse_instruction :: "string \<Rightarrow> error + (string \<times> string list)" where
  "parse_instruction line =
     (let parts = split_ws (replace_commas line) in
      case parts of
        [] \<Rightarrow> Inl IndexError
      | p # ps \<Rightarrow> Inr (lower p, ps))"

definition assemble_r_type :: "string \<Rightarrow> string list \<Rightarrow> error + string" where
  "assemble_r_type opcode operands =
     bind_err
       (if opcode \<in> set [''sll'', ''srl'', ''sra'', ''sllv'', ''srlv'', ''srav''] then
          bind_err (operand operands 0) (\<lambda>o0.
          bind_err (registers_at o0) (\<lambda>rd.
          bind_err (operand operands 1) (\<lambda>o1.
          bind_err (registers_at o1) (\<lambda>rt.
          bind_err (operand operands 2) (\<lambda>o2.
          bind_err (int_of 10 o2) (\<lambda>n.
          Inr (''00000'', rt, rd, format_int 2 5 n)))))))
        else if opcode = ''jr'' then
          bind_err (operand operands 0) (\<lambda>o0.
          bind_err (registers_at o0) (\<lambda>rs.
          Inr (rs, ''00000'', ''00000'', ''00000'')))
        else
          bind_err (operand operands 0) (\<lambda>o0.
          bind_err (registers_at o0) (\<lambda>rd.
          bind_err (operand operands 1) (\<lambda>o1.
          bind_err (registers_at o1) (\<lambda>rs.
          bind_err (operand operands 2) (\<lambda>o2.
          bind_err (registers_at o2) (\<lambda>rt.
          Inr (rs, rt, rd, ''00000''))))))))
       (\<lambda>(rs, rt, rd, shamt).
          bind_err (func_codes_at opcode) (\<lambda>func.
          bind_err (opcodes_at opcode) (\<lambda>opc.
          Inr (opc @ ''_'' @ rs @ ''_'' @ rt @ ''_'' @ rd @ ''_'' @ shamt @ ''_'' @ func))))"

text \<open>
  \<open>offset, base = operands[1].replace(')', '').split('(')\<close>: exactly one \<open>(\<close> must remain,
  otherwise the unpacking raises \<open>ValueError\<close>.
\<close>

definition split_memory_operand :: "string \<Rightarrow> error + (string \<times> string)" where
  "split_memory_operand s =
     (let t = filter (\<lambda>c. c \<noteq> CHR '')'') s;
          offset = takeWhile (\<lambda>c. c \<noteq> CHR ''('') t;
          rest = drop 1 (dropWhile (\<lambda>c. c \<noteq> CHR ''('') t)
      in if CHR ''('' \<in> set t \<and> CHR ''('' \<notin> set rest then Inr (offset, rest)
         else Inl ValueError)"

definition assemble_i_type ::
  "string \<Rightarrow> string list \<Rightarrow> label_table option \<Rightarrow> int option \<Rightarrow> error + string" where
  "assemble_i_type opcode operands label_map current_address =
     bind_err
       (bind_err (operand operands 1) (\<lambda>o1.
        if CHR ''('' \<in> set o1 \<and> CHR '')'' \<in> set o1 then
          bind_err (split_memory_operand o1) (\<lambda>(offset, base).
          bind_err (parse_immediate offset) (\<lambda>v.
          bind_err (operand operands 0) (\<lambda>o0.
          bind_err (registers_at o0) (\<lambda>rt.
          bind_err (registers_at base) (\<lambda>rs.
          Inr (rs, rt, format_int 2 16 (v AND 0xFFFF)))))))
        else if opcode \<in> set [''beq'', ''bne''] \<and> truthy label_map \<and> current_address \<noteq> None
        then
          bind_err (operand operands 0) (\<lambda>o0.
          bind_err (registers_at o0) (\<lambda>rs.
          bind_err (registers_at o1) (\<lambda>rt.
          bind_err (operand operands 2) (\<lambda>o2.
          bind_err (label_map_at label_map o2) (\<lambda>label_address.
          let offset = label_address - the current_address
          in Inr (rs, rt, format_int 2 16 (offset AND 0xFFFF)))))))
        else
          bind_err (operand operands 0) (\<lambda>o0.
          bind_err (registers_at o0) (\<lambda>rt.
          bind_err (registers_at o1) (\<lambda>rs.
          bind_err (operand operands 2) (\<lambda>o2.
          bind_err (parse_immediate o2) (\<lambda>v.
          Inr (rs, rt, format_int 2 16 (v AND 0xFFFF)))))))))
       (\<lambda>(rs, rt, immediate).
          bind_err (opcodes_at opcode) (\<lambda>opc.
          Inr (opc @ ''_'' @ rs @ ''_'' @ rt @ ''_'' @ immediate)))"

definition assemble_j_type :: "string \<Rightarrow> string list \<Rightarrow> label_table option \<Rightarrow> error + string"
where
  "assemble_j_type opcode operands label_map =
     bind_err
       (if truthy label_map then
          bind_err (operand operands 0) (\<lambda>o0.
          bind_err (label_map_at label_map o0) (\<lambda>address.
          Inr (format_int 2 26 address)))
        else
          bind_err (operand operands 0) (\<lambda>o0.
          bind_err (int_of 10 o0) (\<lambda>address.
          Inr (format_int 2 26 address))))
       (\<lambda>address.
          bind_err (opcodes_at opcode) (\<lambda>opc.
          Inr (opc @ ''_'' @ address)))"

text \<open>
  \<open>assemble_instruction\<close> returns a string, or \<open>None\<close> when no branch of it returns
  (an unknown mnemonic).
\<close>

definition temp_reg :: string where
  "temp_reg = ''$25''"

definition assemble_instruction ::
  "string \<Rightarrow> string list \<Rightarrow> label_table option \<Rightarrow> int option \<Rightarrow> error + string option" where
  "assemble_instruction opcode operands label_map current_address =
     (if opcode = ''nop'' then Inr (Some ''00000000000000000000000000000000'')
      else if opcode = ''sgt'' then
        bind_err (operand operands 0) (\<lambda>o0.
        bind_err (operand operands 2) (\<lambda>o2.
        bind_err (operand operands 1) (\<lambda>o1.
        map_sum id Some (assemble_r_type ''slt'' [o0, o2, o1]))))
      else if opcode = ''move'' then
        bind_err (operand operands 0) (\<lambda>o0.
        bind_err (operand operands 1) (\<lambda>o1.
        map_sum id Some (assemble_r_type ''add'' [o0, o1, ''$0''])))
      else if opcode = ''li'' then
        bind_err (operand operands 0) (\<lambda>o0.
        bind_err (operand operands 1) (\<lambda>o1.
        map_sum id Some (assemble_i_type ''addi'' [o0, ''$0'', o1] None None)))
      else if opcode = ''blt'' then
        bind_err (operand operands 0) (\<lambda>o0.
        bind_err (operand operands 1) (\<lambda>o1.
        bind_err (assemble_r_type ''slt'' [temp_reg, o0, o1]) (\<lambda>slt_instruction.
        bind_err (operand operands 2) (\<lambda>o2.
        bind_err (assemble_i_type ''bne'' [temp_reg, ''$0'', o2] label_map current_address)
          (\<lambda>bne_instruction.
        Inr (Some (slt_instruction @ [newline] @ bne_instruction)))))))
      else if opcode = ''bgt'' then
        bind_err (operand operands 1) (\<lambda>o1.
        bind_err (operand operands 0) (\<lambda>o0.
        bind_err (assemble_r_type ''slt'' [temp_reg, o1, o0]) (\<lambda>slt_instruction.
        bind_err (operand operands 2) (\<lambda>o2.
        bind_err (assemble_i_type ''bne'' [temp_reg, ''$0'', o2] label_map current_address)
          (\<lambda>bne_instruction.
        Inr (Some (slt_instruction @ [newline] @ bne_instruction)))))))
      else if opcode = ''ble'' then
        bind_err (operand operands 1) (\<lambda>o1.
        bind_err (operand operands 0) (\<lambda>o0.
        bind_err (assemble_r_type ''slt'' [temp_reg, o1, o0]) (\<lambda>slt_instruction.
        bind_err (operand operands 2) (\<lambda>o2.
        bind_err (assemble_i_type ''beq'' [temp_reg, ''$0'', o2] label_map current_address)
          (\<lambda>beq_instruction.
        Inr (Some (slt_instruction @ [newline] @ beq_instruction)))))))
      else if opcode = ''bge'' then
        bind_err (operand operands 0) (\<lambda>o0.
        bind_err (operand operands 1) (\<lambda>o1.
        bind_err (assemble_r_type ''slt'' [temp_reg, o0, o1]) (\<lambda>slt_instruction.
        bind_err (operand operands 2) (\<lambda>o2.
        bind_err (assemble_i_type ''beq'' [temp_reg, ''$0'', o2] label_map current_address)
          (\<lambda>beq_instruction.
        Inr (Some (slt_instruction @ [newline] @ beq_instruction)))))))
      else if func_codes opcode \<noteq> None then
        map_sum id Some (assemble_r_type opcode operands)
      else if opcode \<in> set [''lw'', ''sw'', ''addi'', ''addiu'', ''andi'', ''ori'', ''xori'',
                              ''slti'', ''sltiu'', ''beq'', ''bne''] then
        map_sum id Some (assemble_i_type opcode operands label_map current_address)
      else if opcode \<in> set [''j'', ''jal''] then
        map_sum id Some (assemble_j_type opcode operands label_map)
      else Inr None)"

subsection \<open>The two passes of \<open>main\<close>\<close>

definition pseudo_branches :: "string list" where
  "pseudo_branches = [''blt'', ''bgt'', ''ble'', ''bge'']"

text \<open>
  First pass, one line: the state is the label table and the running address \<open>pc\<close>.
\<close>

definition first_pass_line :: "label_table \<times> int \<Rightarrow> string \<Rightarrow> label_table \<times> int" where
  "first_pass_line st raw =
     (let label_map = fst st; pc = snd st;
          line = strip raw;
          part = split_ws (replace_commas line)
      in case part of
           [] \<Rightarrow> (label_map, pc)
         | p # ps \<Rightarrow>
             let opcode = lower p in
             if endswith_colon line then ((butlast line, pc) # label_map, pc)
             else if line \<noteq> [] \<and> \<not> startswith_hash line then
               (if opcode \<in> set pseudo_branches then (label_map, pc + 2)
                else (label_map, pc + 1))
             else (label_map, pc))"

definition first_pass :: "string list \<Rightarrow> label_table \<times> int" where
  "first_pass lines = foldl first_pass_line ([], 0) lines"

text \<open>
  \<open>hex_instruction = f"{int(binary_instruction.replace('_', ''), 2):08X}"\<close> and the line
  written for one word.
\<close>

definition hex_instruction :: "string \<Rightarrow> error + string" where
  "hex_instruction binary_instruction =
     bind_err (int_of 2 (filter (\<lambda>c. c \<noteq> CHR ''_'') binary_instruction))
       (\<lambda>v. Inr (format_int 16 8 v))"

definition output_line :: "string \<Rightarrow> string \<Rightarrow> string \<Rightarrow> string" where
  "output_line line binary_instruction hex =
     line @ '' --> [ binary: '' @ binary_instruction @ '', hex: '' @ hex @ '' ]'' @ [newline]"

fun write_words :: "string \<Rightarrow> string list \<Rightarrow> error + string list" where
  "write_words line [] = Inr []"
| "write_words line (w # ws) =
     bind_err (hex_instruction w) (\<lambda>h.
     bind_err (write_words line ws) (\<lambda>rest.
     Inr (output_line line w h # rest)))"

text \<open>
  Second pass, one line: the state is the running address \<open>pc\<close> and the lines written to
  the output file so far.
\<close>

definition second_pass_line ::
  "label_table \<Rightarrow> int \<times> string list \<Rightarrow> string \<Rightarrow> error + (int \<times> string list)" where
  "second_pass_line label_map st raw =
     (let pc = fst st; out = snd st; line = strip raw in
      if endswith_colon line \<or> startswith_hash line then Inr (pc, out)
      else if line \<noteq> [] then
        (let line = strip (takeWhile (\<lambda>c. c \<noteq> CHR ''#'') line) in
         if line \<noteq> [] then
           bind_err (parse_instruction line) (\<lambda>(opcode, operands).
           let pc = (if opcode \<in> set pseudo_branches then pc + 1 else pc) in
           bind_err (assemble_instruction opcode operands (Some label_map) (Some pc))
             (\<lambda>binary_instructions.
           case binary_instructions of
             None \<Rightarrow> Inl AttributeError
           | Some b \<Rightarrow>
               bind_err (write_words line (splitlines b)) (\<lambda>written.
               Inr (pc + 1, out @ written))))
         else Inr (pc, out))
      else Inr (pc, out))"

fun second_pass ::
  "label_table \<Rightarrow> int \<times> string list \<Rightarrow> string list \<Rightarrow> error + (int \<times> string list)" where
  "second_pass label_map st [] = Inr st"
| "second_pass label_map st (raw # rest) =
     bind_err (second_pass_line label_map st raw) (\<lambda>st'. second_pass label_map st' rest)"

text \<open>\<open>main\<close> on the lines of \<open>input.txt\<close>: the lines written to \<open>output.txt\<close>.\<close>

definition main :: "string list \<Rightarrow> error + string list" where
  "main lines =
     (let label_map = fst (first_pass lines) in
      map_sum id snd (second_pass label_map (0, []) lines))"

subsection \<open>Binary strings\<close>

text \<open>A string of the characters \<open>0\<close> and \<open>1\<close>, and the number it denotes.\<close>

definition is_bits :: "string \<Rightarrow> bool" where
  "is_bits s = list_all (\<lambda>c. c = CHR ''0'' \<or> c = CHR ''1'') s"

definition bits_value :: "int \<Rightarrow> string \<Rightarrow> int" where
  "bits_value acc s = foldl (\<lambda>a c. a * 2 + (if c = CHR ''1'' then 1 else 0)) acc s"

text \<open>A string without line boundaries: \<open>splitlines\<close> leaves it whole.\<close>

definition clean :: "string \<Rightarrow> bool" where
  "clean s = list_all (\<lambda>c. \<not> is_linebreak c) s"

section \<open>Properties of the scheduler\<close>

declare schedule_loop.simps [simp del] trace_loop.simps [simp del]

lemma safe_pair_True: "safe_pair h1 h2 = Inr True \<longleftrightarrow> hazard_free h1 h2"
  by (auto simp: safe_pair_def hazard_free_def split: sum.splits)

lemma can_schedule_True: "can_schedule_in_slot1 h1 h2 = Inr True \<longleftrightarrow> hazard_free h1 h2"
  by (auto simp: can_schedule_in_slot1_def hazard_free_def split: sum.splits)

lemma hazard_free_sym: "hazard_free h1 h2 = hazard_free h2 h1"
  by (auto simp: hazard_free_def split: sum.splits)

lemma decode_is_special: "decode_mips h = Inr d \<Longrightarrow> \<exists>s. is_special h = Inr s"
  by (auto simp: decode_mips_def is_special_def Let_def split: if_splits option.splits)

lemma hazard_free_is_special: "hazard_free h1 h2 \<Longrightarrow> \<exists>s. is_special h2 = Inr s"
  by (auto simp: hazard_free_def split: sum.splits dest: decode_is_special)

lemma scan_special_Some:
  "scan_special instrs used h js = Inr (Some j) \<Longrightarrow>
     j \<in> set js \<and> \<not> used ! j \<and> is_special (snd (instrs ! j)) = Inr False \<and>
     hazard_free (snd (instrs ! j)) h"
  by (induction js) (auto split: if_splits sum.splits simp: can_schedule_True)

lemma scan_plain_Some:
  "scan_plain instrs used h js = Inr (Some j) \<Longrightarrow>
     j \<in> set js \<and> \<not> used ! j \<and> hazard_free h (snd (instrs ! j))"
  by (induction js) (auto split: if_splits sum.splits simp: safe_pair_True)

lemma packet_lines_simps [simp]:
  "packet_lines instrs (s1, s2, k) = (slot_line instrs s1, slot_line instrs s2)"
  "slot_line instrs None = nop_line"
  "slot_line instrs (Some j) = fst (instrs ! j)"
  by (simp_all add: packet_lines_def slot_line_def)

lemma trace_refines:
  "schedule_loop instrs used (map (packet_lines instrs) tr) i =
     map_sum id (map (packet_lines instrs)) (trace_loop instrs used tr i)"
proof (induction instrs used tr i rule: trace_loop.induct)
  case (1 instrs used tr i)
  show ?case
    apply (subst schedule_loop.simps)
    apply (subst trace_loop.simps)
    using 1
    apply (auto simp: Let_def id_def split: sum.splits option.splits)
    done
qed


lemma trace_loop_rule:
  assumes run: "trace_loop instrs used tr i = Inr tr'"
    and init: "I used tr i"
    and skip: "\<And>used tr i. I used tr i \<Longrightarrow> i < length instrs \<Longrightarrow> used ! i \<Longrightarrow> I used tr (i + 1)"
    and special_pair: "\<And>used tr i c. I used tr i \<Longrightarrow> i < length instrs \<Longrightarrow> \<not> used ! i \<Longrightarrow>
        is_special (snd (instrs ! i)) = Inr True \<Longrightarrow>
        scan_special instrs used (snd (instrs ! i)) [i + 1 ..< length instrs] = Inr (Some c) \<Longrightarrow>
        I (used[c := True, i := True]) (tr @ [(Some c, Some i, i)]) (i + 1)"
    and special_alone: "\<And>used tr i. I used tr i \<Longrightarrow> i < length instrs \<Longrightarrow> \<not> used ! i \<Longrightarrow>
        is_special (snd (instrs ! i)) = Inr True \<Longrightarrow>
        I (used[i := True]) (tr @ [(None, Some i, i)]) (i + 1)"
    and plain_pair: "\<And>used tr i c. I used tr i \<Longrightarrow> i < length instrs \<Longrightarrow> \<not> used ! i \<Longrightarrow>
        is_special (snd (instrs ! i)) = Inr False \<Longrightarrow>
        scan_plain instrs used (snd (instrs ! i)) [i + 1 ..< length instrs] = Inr (Some c) \<Longrightarrow>
        I (used[i := True, c := True]) (tr @ [(Some i, Some c, i)]) (i + 1)"
    and plain_alone: "\<And>used tr i. I used tr i \<Longrightarrow> i < length instrs \<Longrightarrow> \<not> used ! i \<Longrightarrow>
        is_special (snd (instrs ! i)) = Inr False \<Longrightarrow>
        I (used[i := True]) (tr @ [(Some i, None, i)]) (i + 1)"
    and final: "\<And>used tr i. I used tr i \<Longrightarrow> \<not> i < length instrs \<Longrightarrow> Q tr"
  shows "Q tr'"
  using run init
proof (induction "length instrs - i" arbitrary: used tr i rule: less_induct)
  case less
  note step = less.prems(1)[unfolded trace_loop.simps[of instrs used tr i]]
  note inv = less.prems(2)
  show ?case
  proof (cases "i < length instrs")
    case False
    with step have "tr' = tr" by simp
    with final[OF inv False] show ?thesis by simp
  next
    case lt: True
    then have dec: "length instrs - (i + 1) < length instrs - i" by simp
    show ?thesis
    proof (cases "used ! i")
      case True
      with step lt have "trace_loop instrs used tr (i + 1) = Inr tr'" by simp
      from less.hyps[OF dec this skip[OF inv lt True]] show ?thesis .
    next
      case nu: False
      from step lt nu obtain sp where sp: "is_special (snd (instrs ! i)) = Inr sp"
        by (auto simp: Let_def split: sum.splits)
      show ?thesis
      proof (cases sp)
        case True
        with sp have spT: "is_special (snd (instrs ! i)) = Inr True" by simp
        from True step lt nu sp obtain cand where
          cand: "scan_special instrs used (snd (instrs ! i)) [i + 1 ..< length instrs] = Inr cand"
          by (auto simp: Let_def split: sum.splits)
        show ?thesis
        proof (cases cand)
          case None
          with step lt nu sp True cand
          have "trace_loop instrs (used[i := True]) (tr @ [(None, Some i, i)]) (i + 1) = Inr tr'"
            by (simp add: Let_def)
          from less.hyps[OF dec this special_alone[OF inv lt nu spT]]
          show ?thesis .
        next
          case (Some c)
          with step lt nu sp True cand
          have "trace_loop instrs (used[c := True, i := True]) (tr @ [(Some c, Some i, i)]) (i + 1)
                  = Inr tr'"
            by (simp add: Let_def)
          from less.hyps[OF dec this
              special_pair[OF inv lt nu spT cand[unfolded Some]]]
          show ?thesis .
        qed
      next
        case False
        with sp have spF: "is_special (snd (instrs ! i)) = Inr False" by simp
        from False step lt nu sp obtain cand where
          cand: "scan_plain instrs used (snd (instrs ! i)) [i + 1 ..< length instrs] = Inr cand"
          by (auto simp: Let_def split: sum.splits)
        show ?thesis
        proof (cases cand)
          case None
          with step lt nu sp False cand
          have "trace_loop instrs (used[i := True]) (tr @ [(Some i, None, i)]) (i + 1) = Inr tr'"
            by (simp add: Let_def)
          from less.hyps[OF dec this plain_alone[OF inv lt nu spF]]
          show ?thesis .
        next
          case (Some c)
          with step lt nu sp False cand
          have "trace_loop instrs (used[i := True, c := True]) (tr @ [(Some i, Some c, i)]) (i + 1)
                  = Inr tr'"
            by (simp add: Let_def)
          from less.hyps[OF dec this
              plain_pair[OF inv lt nu spF cand[unfolded Some]]]
          show ?thesis .
        qed
      qed
    qed
  qed
qed

lemma trace_loop_good:
  assumes "trace_loop instrs used tr i = Inr tr'" and "list_all (packet_good instrs) tr"
  shows "list_all (packet_good instrs) tr'"
proof (rule trace_loop_rule[OF assms(1), where I = "\<lambda>used tr i. list_all (packet_good instrs) tr"
      and Q = "list_all (packet_good instrs)"])
  show "list_all (packet_good instrs) tr" by (rule assms(2))
next
  fix used tr i c
  assume "list_all (packet_good instrs) tr" "i < length instrs"
    "is_special (snd (instrs ! i)) = Inr True"
    "scan_special instrs used (snd (instrs ! i)) [i + 1 ..< length instrs] = Inr (Some c)"
  then show "list_all (packet_good instrs) (tr @ [(Some c, Some i, i)])"
    using scan_special_Some[of instrs used "snd (instrs ! i)" "[i + 1 ..< length instrs]" c]
    by (auto simp: packet_good_def anchor_def slot_indices_def)
next
  fix used tr i c
  assume "list_all (packet_good instrs) tr" "i < length instrs"
    "is_special (snd (instrs ! i)) = Inr False"
    "scan_plain instrs used (snd (instrs ! i)) [i + 1 ..< length instrs] = Inr (Some c)"
  then show "list_all (packet_good instrs) (tr @ [(Some i, Some c, i)])"
    using scan_plain_Some[of instrs used "snd (instrs ! i)" "[i + 1 ..< length instrs]" c]
      hazard_free_is_special[of "snd (instrs ! i)" "snd (instrs ! c)"]
    by (auto simp: packet_good_def anchor_def slot_indices_def)
qed (auto simp: packet_good_def anchor_def slot_indices_def)


lemma used_set_update:
  "length used = n \<Longrightarrow> j < n \<Longrightarrow>
     {k. k < n \<and> used[j := True] ! k} = insert j {k. k < n \<and> used ! k}"
  by (auto simp: nth_list_update)

lemma sched_inv_skip:
  "sched_inv n used tr i \<Longrightarrow> i < n \<Longrightarrow> used ! i \<Longrightarrow> sched_inv n used tr (Suc i)"
  by (auto simp: sched_inv_def less_Suc_eq)

lemma sched_inv_alone:
  assumes "sched_inv n used tr i" "i < n" "\<not> used ! i" "slot_indices p = [i]" "anchor p = i"
  shows "sched_inv n (used[i := True]) (tr @ [p]) (Suc i)"
  using assms
  by (auto simp: sched_inv_def used_set_update less_Suc_eq nth_list_update sorted_wrt_append)

lemma sched_inv_pair:
  assumes "sched_inv n used tr i" "i < n" "\<not> used ! i" "i < c" "c < n" "\<not> used ! c"
    "set (slot_indices p) = {i, c}" "distinct (slot_indices p)" "anchor p = i"
    "used' = used[i := True, c := True]"
  shows "sched_inv n used' (tr @ [p]) (Suc i)"
  using assms
  by (auto simp: sched_inv_def used_set_update less_Suc_eq nth_list_update sorted_wrt_append)

lemma trace_loop_inv:
  assumes "trace_loop instrs used tr i = Inr tr'" and "sched_inv (length instrs) used tr i"
  shows "distinct (concat (map slot_indices tr')) \<and>
         set (concat (map slot_indices tr')) = {0 ..< length instrs} \<and>
         sorted_wrt (<) (map anchor tr')"
proof (rule trace_loop_rule[OF assms(1), where I = "sched_inv (length instrs)"])
  show "sched_inv (length instrs) used tr i" by (rule assms(2))
next
  fix used tr i c
  assume "sched_inv (length instrs) used tr i" "i < length instrs" "\<not> used ! i"
    "scan_special instrs used (snd (instrs ! i)) [i + 1 ..< length instrs] = Inr (Some c)"
  then have "sched_inv (length instrs) (used[c := True, i := True]) (tr @ [(Some c, Some i, i)]) (Suc i)"
    using scan_special_Some[of instrs used "snd (instrs ! i)" "[i + 1 ..< length instrs]" c]
    by (intro sched_inv_pair[where c = c and used = used])
       (auto simp: slot_indices_def anchor_def list_update_swap)
  then show "sched_inv (length instrs) (used[c := True, i := True]) (tr @ [(Some c, Some i, i)]) (i + 1)"
    by simp
next
  fix used tr i c
  assume "sched_inv (length instrs) used tr i" "i < length instrs" "\<not> used ! i"
    "scan_plain instrs used (snd (instrs ! i)) [i + 1 ..< length instrs] = Inr (Some c)"
  then have "sched_inv (length instrs) (used[i := True, c := True]) (tr @ [(Some i, Some c, i)]) (Suc i)"
    using scan_plain_Some[of instrs used "snd (instrs ! i)" "[i + 1 ..< length instrs]" c]
    by (intro sched_inv_pair[where c = c and used = used])
       (auto simp: slot_indices_def anchor_def)
  then show "sched_inv (length instrs) (used[i := True, c := True]) (tr @ [(Some i, Some c, i)]) (i + 1)"
    by simp
next
  fix used tr i
  assume "sched_inv (length instrs) used tr i" "\<not> i < length instrs"
  then show "distinct (concat (map slot_indices tr)) \<and>
         set (concat (map slot_indices tr)) = {0 ..< length instrs} \<and>
         sorted_wrt (<) (map anchor tr)"
    by (auto simp: sched_inv_def)
qed (auto intro: sched_inv_skip sched_inv_alone simp: slot_indices_def anchor_def)

lemma sched_inv_init: "sched_inv n (replicate n False) [] 0"
  by (auto simp: sched_inv_def)


lemma schedule_trace_refines:
  "schedule_instructions_enhanced instrs =
     map_sum id (map (packet_lines instrs)) (schedule_trace instrs)"
  using trace_refines[of instrs "replicate (length instrs) False" "[]" 0]
  by (simp add: schedule_instructions_enhanced_def schedule_trace_def)

lemma schedule_trace_good:
  "schedule_trace instrs = Inr tr \<Longrightarrow> list_all (packet_good instrs) tr"
  unfolding schedule_trace_def by (erule trace_loop_good) simp

lemma hazard_freeD:
  "hazard_free h1 h2 \<Longrightarrow>
     \<exists>d1 d2. decode_mips h1 = Inr d1 \<and> decode_mips h2 = Inr d2 \<and>
       writes d1 \<inter> reads d2 = {} \<and> writes d2 \<inter> reads d1 = {}"
  by (auto simp: hazard_free_def split: sum.splits)

subsection \<open>The scheduler returns on words that parse\<close>

lemma parses_hex_results:
  assumes "parses_hex h"
  shows "is_special h = Inr True \<or> is_special h = Inr False" "\<exists>d. decode_mips h = Inr d"
  using assms by (auto simp: parses_hex_def is_special_def decode_mips_def Let_def)

lemma hazard_checks_return:
  assumes "parses_hex h1" "parses_hex h2"
  shows "\<exists>r. can_schedule_in_slot1 h1 h2 = Inr r" "\<exists>r. safe_pair h1 h2 = Inr r"
  using parses_hex_results(2)[OF assms(1)] parses_hex_results(2)[OF assms(2)]
  by (auto simp: can_schedule_in_slot1_def safe_pair_def)

lemma scan_special_returns:
  assumes "list_all (\<lambda>i. parses_hex (snd i)) instrs" "parses_hex h"
  shows "\<forall>j\<in>set js. j < length instrs \<Longrightarrow> \<exists>r. scan_special instrs used h js = Inr r"
proof (induction js)
  case Nil
  show ?case by simp
next
  case (Cons j js)
  from Cons.prems assms(1) have pj: "parses_hex (snd (instrs ! j))"
    by (simp add: list_all_length)
  from Cons have ih: "\<exists>r. scan_special instrs used h js = Inr r" by simp
  from parses_hex_results(1)[OF pj] hazard_checks_return(1)[OF pj assms(2)] ih
  show ?case by auto
qed

lemma scan_plain_returns:
  assumes "list_all (\<lambda>i. parses_hex (snd i)) instrs" "parses_hex h"
  shows "\<forall>j\<in>set js. j < length instrs \<Longrightarrow> \<exists>r. scan_plain instrs used h js = Inr r"
proof (induction js)
  case Nil
  show ?case by simp
next
  case (Cons j js)
  from Cons.prems assms(1) have pj: "parses_hex (snd (instrs ! j))"
    by (simp add: list_all_length)
  from Cons have ih: "\<exists>r. scan_plain instrs used h js = Inr r" by simp
  from hazard_checks_return(2)[OF assms(2) pj] ih
  show ?case by auto
qed

lemma trace_loop_returns:
  assumes wf: "list_all (\<lambda>i. parses_hex (snd i)) instrs"
  shows "\<exists>r. trace_loop instrs used tr i = Inr r"
proof (induction "length instrs - i" arbitrary: used tr i rule: less_induct)
  case less
  show ?case
  proof (cases "i < length instrs")
    case False
    then show ?thesis by (simp add: trace_loop.simps[of instrs used tr i])
  next
    case lt: True
    then have dec: "length instrs - (i + 1) < length instrs - i" by simp
    note ih = less.hyps[OF dec]
    from wf lt have pi: "parses_hex (snd (instrs ! i))" by (simp add: list_all_length)
    have rng: "\<forall>j\<in>set [Suc i ..< length instrs]. j < length instrs" by simp
    from scan_special_returns[OF wf pi rng] obtain rs where
      rs: "scan_special instrs used (snd (instrs ! i)) [Suc i ..< length instrs] = Inr rs" by blast
    from scan_plain_returns[OF wf pi rng] obtain rp where
      rp: "scan_plain instrs used (snd (instrs ! i)) [Suc i ..< length instrs] = Inr rp" by blast
    from parses_hex_results(1)[OF pi] show ?thesis
    proof
      assume sp: "is_special (snd (instrs ! i)) = Inr True"
      show ?thesis
        using ih[of used tr] ih[of "used[i := True]" "tr @ [(None, Some i, i)]"]
          ih[of "used[the rs := True, i := True]" "tr @ [(Some (the rs), Some i, i)]"]
        by (cases rs) (simp_all add: trace_loop.simps[of instrs used tr i] lt sp rs Let_def)
    next
      assume sp: "is_special (snd (instrs ! i)) = Inr False"
      show ?thesis
        using ih[of used tr] ih[of "used[i := True]" "tr @ [(Some i, None, i)]"]
          ih[of "used[i := True, the rp := True]" "tr @ [(Some i, Some (the rp), i)]"]
        by (cases rp) (simp_all add: trace_loop.simps[of instrs used tr i] lt sp rp Let_def)
    qed
  qed
qed

lemma schedule_trace_returns:
  "list_all (\<lambda>i. parses_hex (snd i)) instrs \<Longrightarrow> \<exists>tr. schedule_trace instrs = Inr tr"
  unfolding schedule_trace_def by (rule trace_loop_returns)

subsection \<open>Claims about the packets\<close>

text \<open>
  C1: on every list of instructions whose words parse, the scheduler returns, and every
  packet whose two slots both hold input instructions \<open>a\<close> (slot 1) and \<open>b\<close> (slot 2)
  is hazard-free under the decoder: both words decode, the write set of \<open>a\<close> does not
  meet the read set of \<open>b\<close>, and the write set of \<open>b\<close> does not meet the read set of
  \<open>a\<close>. The packets of lines returned by \<open>schedule_instructions_enhanced\<close> are the
  lines of the trace.
\<close>

theorem packets_hazard_free:
  assumes "list_all (\<lambda>i. parses_hex (snd i)) instructions"
  shows "\<exists>tr. schedule_trace instructions = Inr tr \<and>
           schedule_instructions_enhanced instructions = Inr (map (packet_lines instructions) tr) \<and>
           (\<forall>a b k. (Some a, Some b, k) \<in> set tr \<longrightarrow>
              a < length instructions \<and> b < length instructions \<and>
              (\<exists>da db. decode_mips (snd (instructions ! a)) = Inr da \<and>
                       decode_mips (snd (instructions ! b)) = Inr db \<and>
                       writes da \<inter> reads db = {} \<and> writes db \<inter> reads da = {}))"
proof -
  from schedule_trace_returns[OF assms] obtain tr where tr: "schedule_trace instructions = Inr tr"
    by blast
  have "a < length instructions \<and> b < length instructions \<and>
        (\<exists>da db. decode_mips (snd (instructions ! a)) = Inr da \<and>
                 decode_mips (snd (instructions ! b)) = Inr db \<and>
                 writes da \<inter> reads db = {} \<and> writes db \<inter> reads da = {})"
    if "(Some a, Some b, k) \<in> set tr" for a b k
  proof -
    from schedule_trace_good[OF tr] that
    have "packet_good instructions (Some a, Some b, k)" by (simp add: list_all_iff)
    then have "a < length instructions" "b < length instructions"
      "hazard_free (snd (instructions ! a)) (snd (instructions ! b))"
      by (simp_all add: packet_good_def)
    with hazard_freeD[OF this(3)] show ?thesis by simp
  qed
  with tr show ?thesis by (auto simp: schedule_trace_refines)
qed

theorem packets_hazard_free_witness:
  "schedule_instructions_enhanced [(''lw $3,0($2)'', ''8C430000''), (''add $4,$5,$6'', ''00A62020'')]
     = Inr [(''add $4,$5,$6'', ''lw $3,0($2)'')] \<and>
   (\<exists>da db. decode_mips ''00A62020'' = Inr da \<and> decode_mips ''8C430000'' = Inr db \<and>
      writes da \<inter> reads db = {} \<and> writes db \<inter> reads da = {})"
proof -
  let ?W = "[(''lw $3,0($2)'', ''8C430000''), (''add $4,$5,$6'', ''00A62020'')]"
  have wf: "list_all (\<lambda>i. parses_hex (snd i)) ?W" by code_simp
  have run: "schedule_trace ?W = Inr [(Some 1, Some 0, 0)]" by code_simp
  from packets_hazard_free[OF wf] run show ?thesis by auto
qed

text \<open>
  C2: on every list of instructions whose words parse, the scheduler returns, the indices
  held by the slots of its packets are the input indices, each exactly once, so the
  multiset of instructions in the slots is the multiset of the input list; the anchors of
  successive packets are strictly increasing input indices, and the anchor of a packet is
  one of its slots.
\<close>

theorem each_instruction_once:
  assumes "list_all (\<lambda>i. parses_hex (snd i)) instructions"
  shows "\<exists>tr. schedule_trace instructions = Inr tr \<and>
           schedule_instructions_enhanced instructions = Inr (map (packet_lines instructions) tr) \<and>
           mset (concat (map slot_indices tr)) = mset [0 ..< length instructions] \<and>
           mset (map ((!) instructions) (concat (map slot_indices tr))) = mset instructions \<and>
           sorted_wrt (<) (map anchor tr) \<and>
           list_all (\<lambda>p. anchor p \<in> set (slot_indices p)) tr"
proof -
  from schedule_trace_returns[OF assms] obtain tr where tr: "schedule_trace instructions = Inr tr"
    by blast
  from tr have "distinct (concat (map slot_indices tr)) \<and>
         set (concat (map slot_indices tr)) = {0 ..< length instructions} \<and>
         sorted_wrt (<) (map anchor tr)"
    unfolding schedule_trace_def by (rule trace_loop_inv) (rule sched_inv_init)
  then have d: "distinct (concat (map slot_indices tr))"
    and s: "set (concat (map slot_indices tr)) = set [0 ..< length instructions]"
    and o: "sorted_wrt (<) (map anchor tr)" by simp_all
  have m: "mset (concat (map slot_indices tr)) = mset [0 ..< length instructions]"
    using set_eq_iff_mset_eq_distinct[OF d distinct_upt, of 0 "length instructions"] s by blast
  have "mset (map ((!) instructions) (concat (map slot_indices tr)))
          = image_mset ((!) instructions) (mset (concat (map slot_indices tr)))" by simp
  also have "\<dots> = mset (map ((!) instructions) [0 ..< length instructions])"
    by (simp only: m mset_map)
  also have "\<dots> = mset instructions" by (simp add: map_nth)
  finally have l: "mset (map ((!) instructions) (concat (map slot_indices tr))) = mset instructions" .
  from schedule_trace_good[OF tr]
  have a: "list_all (\<lambda>p. anchor p \<in> set (slot_indices p)) tr"
    by (simp add: list_all_iff packet_good_def)
  have r: "schedule_instructions_enhanced instructions = Inr (map (packet_lines instructions) tr)"
    by (simp add: schedule_trace_refines tr)
  from tr r m l o a show ?thesis by blast
qed

theorem each_instruction_once_witness:
  "schedule_instructions_enhanced
     [(''sw $1,0($2)'', ''AC410000''), (''lw $3,0($2)'', ''8C430000''),
      (''add $1,$2,$3'', ''00430820''), (''add $4,$5,$6'', ''00A62020'')]
     = Inr [(''add $4,$5,$6'', ''sw $1,0($2)''), (nop_line, ''lw $3,0($2)''),
            (''add $1,$2,$3'', nop_line)] \<and>
   mset (concat (map slot_indices [(Some 3, Some 0, 0), (None, Some 1, 1), (Some 2, None, 2)]))
     = mset [0 ..< 4] \<and>
   sorted_wrt (<) (map anchor [(Some 3, Some 0, 0), (None, Some 1, 1), (Some 2, None, 2)])"
proof -
  let ?W = "[(''sw $1,0($2)'', ''AC410000''), (''lw $3,0($2)'', ''8C430000''),
      (''add $1,$2,$3'', ''00430820''), (''add $4,$5,$6'', ''00A62020'')]"
  let ?T = "[(Some 3, Some 0, 0), (None, Some 1, 1), (Some 2, None, 2 :: nat)]"
  have wf: "list_all (\<lambda>i. parses_hex (snd i)) ?W" by code_simp
  have run: "schedule_trace ?W = Inr ?T"
    by code_simp
  have len: "length ?W = 4" by simp
  have lines: "map (packet_lines ?W) ?T =
      [(''add $4,$5,$6'', ''sw $1,0($2)''), (nop_line, ''lw $3,0($2)''),
       (''add $1,$2,$3'', nop_line)]"
    by simp
  from each_instruction_once[OF wf] obtain tr where
    tr: "schedule_trace ?W = Inr tr"
      "schedule_instructions_enhanced ?W = Inr (map (packet_lines ?W) tr)"
      "mset (concat (map slot_indices tr)) = mset [0 ..< length ?W]"
      "sorted_wrt (<) (map anchor tr)" by blast
  from tr(1) run have eq: "tr = ?T" by simp
  from tr(2,3,4) show ?thesis unfolding eq len lines by blast
qed

text \<open>
  C3: on every list of instructions whose words parse, the scheduler returns, and in
  every packet that pairs two input instructions, slot 1 holds a non-special instruction
  and \<open>is_special\<close> is defined on slot 2; so whenever exactly one of the two is
  special, it is the one in slot 2. The anchor is either of the two: the special
  instruction sits in slot 2 both as the anchor and as the partner pulled forward.
\<close>

theorem special_in_slot2:
  assumes "list_all (\<lambda>i. parses_hex (snd i)) instructions"
  shows "\<exists>tr. schedule_trace instructions = Inr tr \<and>
           schedule_instructions_enhanced instructions = Inr (map (packet_lines instructions) tr) \<and>
           (\<forall>a b k. (Some a, Some b, k) \<in> set tr \<longrightarrow>
              is_special (snd (instructions ! a)) = Inr False \<and>
              (is_special (snd (instructions ! b)) = Inr True \<or>
               is_special (snd (instructions ! b)) = Inr False) \<and>
              (k = a \<or> k = b))"
proof -
  from schedule_trace_returns[OF assms] obtain tr where tr: "schedule_trace instructions = Inr tr"
    by blast
  have "is_special (snd (instructions ! a)) = Inr False \<and>
        (is_special (snd (instructions ! b)) = Inr True \<or>
         is_special (snd (instructions ! b)) = Inr False) \<and>
        (k = a \<or> k = b)"
    if "(Some a, Some b, k) \<in> set tr" for a b k
  proof -
    from schedule_trace_good[OF tr] that
    have "packet_good instructions (Some a, Some b, k)" by (simp add: list_all_iff)
    then show ?thesis
      by (auto simp: packet_good_def anchor_def slot_indices_def)
  qed
  with tr show ?thesis by (auto simp: schedule_trace_refines)
qed

theorem special_in_slot2_witness:
  "is_special ''00E84820'' = Inr False \<and> is_special ''AC410000'' = Inr True \<and>
   schedule_instructions_enhanced
     [(''lw $3,0($2)'', ''8C430000''), (''add $4,$5,$6'', ''00A62020''),
      (''add $9,$7,$8'', ''00E84820''), (''sw $1,0($2)'', ''AC410000'')]
     = Inr [(''add $4,$5,$6'', ''lw $3,0($2)''), (''add $9,$7,$8'', ''sw $1,0($2)'')]"
proof -
  let ?W = "[(''lw $3,0($2)'', ''8C430000''), (''add $4,$5,$6'', ''00A62020''),
      (''add $9,$7,$8'', ''00E84820''), (''sw $1,0($2)'', ''AC410000'')]"
  have wf: "list_all (\<lambda>i. parses_hex (snd i)) ?W" by code_simp
  have run: "schedule_trace ?W = Inr [(Some 1, Some 0, 0), (Some 2, Some 3, 2)]"
    by code_simp
  have sw: "is_special ''AC410000'' = Inr True" by code_simp
  from special_in_slot2[OF wf] run sw show ?thesis by auto
qed

subsection \<open>The two hazard predicates\<close>

lemma hex_digit_facts:
  assumes "is_hex_digit c"
  shows "\<not> is_int_space c" "c \<noteq> CHR ''-''" "c \<noteq> CHR ''+''" "c \<noteq> CHR ''x''" "c \<noteq> CHR ''X''"
    "c \<noteq> CHR ''_''" "\<exists>d. digit_val c = Some d \<and> d < 16"
  using assms by (auto simp: is_hex_digit_def is_int_space_def digit_val_def)

lemma strip_with_id:
  assumes "s \<noteq> []" "\<not> sp (hd s)" "\<not> sp (last s)"
  shows "strip_with sp s = s"
proof -
  have front: "dropWhile sp s = s"
    using assms(1,2) by (simp add: dropWhile_eq_self_iff)
  have rear: "dropWhile sp (rev s) = rev s"
    using assms(1,3) by (simp add: dropWhile_eq_self_iff hd_rev)
  show ?thesis by (simp add: strip_with_def front rear)
qed

lemma digits_acc_hex:
  "list_all is_hex_digit s \<Longrightarrow> s \<noteq> [] \<or> prev \<Longrightarrow> \<exists>v. digits_acc 16 prev acc s = Some v"
proof (induction s arbitrary: prev acc)
  case Nil
  then show ?case by simp
next
  case (Cons c cs)
  from Cons.prems(1) have c: "is_hex_digit c" and cs: "list_all is_hex_digit cs" by simp_all
  from hex_digit_facts(7)[OF c] obtain d where d: "digit_val c = Some d" "d < 16" by blast
  from Cons.IH[OF cs, of True] obtain v
    where "digits_acc 16 True (acc * int 16 + int d) cs = Some v" by blast
  with d hex_digit_facts(6)[OF c] show ?case by simp
qed

lemma py_int_hex:
  assumes "list_all is_hex_digit s" "s \<noteq> []"
  shows "\<exists>v. py_int 16 s = Some v"
proof -
  from assms obtain c cs where s: "s = c # cs" by (cases s) auto
  from assms have h: "is_hex_digit (hd s)" and l: "is_hex_digit (last s)"
    by (auto simp: list_all_iff)
  have st: "strip_with is_int_space s = s"
    using strip_with_id[OF assms(2)] hex_digit_facts(1)[OF h] hex_digit_facts(1)[OF l] by simp
  have pre: "strip_prefix 16 s = s"
  proof (cases cs)
    case Nil
    with s show ?thesis by (simp add: strip_prefix_def)
  next
    case (Cons c1 rest)
    with assms(1) s have "is_hex_digit c1" by simp
    from hex_digit_facts(4,5)[OF this] s Cons show ?thesis by (simp add: strip_prefix_def)
  qed
  from h s have "c \<noteq> CHR ''-''" "c \<noteq> CHR ''+''" using hex_digit_facts(2,3) by auto
  with st pre s digits_acc_hex[OF assms(1), of False 0] assms(2) show ?thesis
    by (auto simp: py_int_def)
qed

lemma decode_mips_hex8: "is_hex8 s \<Longrightarrow> \<exists>d. decode_mips s = Inr d"
proof -
  assume "is_hex8 s"
  then have "list_all is_hex_digit s" "s \<noteq> []" by (auto simp: is_hex8_def)
  from py_int_hex[OF this] obtain v where "py_int 16 s = Some v" by blast
  then show ?thesis by (simp add: decode_mips_def Let_def)
qed

text \<open>
  C10: on every pair of 8-hex-digit words, \<open>can_schedule_in_slot1\<close> and \<open>safe_pair\<close>
  return the same boolean, and each returns the same boolean when its arguments are
  swapped.
\<close>

theorem hazard_predicates_agree:
  assumes "is_hex8 c" and "is_hex8 s"
  shows "can_schedule_in_slot1 c s = safe_pair c s \<and>
         safe_pair c s = safe_pair s c \<and>
         can_schedule_in_slot1 c s = can_schedule_in_slot1 s c \<and>
         (safe_pair c s = Inr True \<or> safe_pair c s = Inr False)"
proof -
  from decode_mips_hex8[OF assms(1)] obtain dc where dc: "decode_mips c = Inr dc" by blast
  from decode_mips_hex8[OF assms(2)] obtain ds where ds: "decode_mips s = Inr ds" by blast
  from dc ds show ?thesis
    by (auto simp: can_schedule_in_slot1_def safe_pair_def)
qed

theorem hazard_predicates_agree_witness:
  "is_hex8 ''00430820'' \<and> is_hex8 ''8C430000'' \<and>
   can_schedule_in_slot1 ''00430820'' ''8C430000'' = Inr False \<and>
   safe_pair ''00430820'' ''8C430000'' = Inr False \<and>
   safe_pair ''8C430000'' ''00430820'' = Inr False \<and>
   can_schedule_in_slot1 ''8C430000'' ''00430820'' = Inr False"
proof -
  have a: "is_hex8 ''00430820''" and b: "is_hex8 ''8C430000''"
    by (simp_all add: is_hex8_def is_hex_digit_def)
  have v: "safe_pair ''00430820'' ''8C430000'' = Inr False" by code_simp
  from hazard_predicates_agree[OF a b] a b v show ?thesis by metis
qed

section \<open>Properties of the assembler\<close>

lemma registers_table:
  "map (\<lambda>i. (CHR ''$'' # digits_str 10 i, format_int 2 5 i)) [0 .. 31] =
     [(''$0'', ''00000''), (''$1'', ''00001''), (''$2'', ''00010''), (''$3'', ''00011''),
      (''$4'', ''00100''), (''$5'', ''00101''), (''$6'', ''00110''), (''$7'', ''00111''),
      (''$8'', ''01000''), (''$9'', ''01001''), (''$10'', ''01010''), (''$11'', ''01011''),
      (''$12'', ''01100''), (''$13'', ''01101''), (''$14'', ''01110''), (''$15'', ''01111''),
      (''$16'', ''10000''), (''$17'', ''10001''), (''$18'', ''10010''), (''$19'', ''10011''),
      (''$20'', ''10100''), (''$21'', ''10101''), (''$22'', ''10110''), (''$23'', ''10111''),
      (''$24'', ''11000''), (''$25'', ''11001''), (''$26'', ''11010''), (''$27'', ''11011''),
      (''$28'', ''11100''), (''$29'', ''11101''), (''$30'', ''11110''), (''$31'', ''11111'')]"
  by code_simp


lemma registers_Some:
  assumes "registers r = Some v"
  shows "CHR ''('' \<notin> set r" "length v = 5" "is_bits v"
proof -
  from assms have "(r, v) \<in> set (map (\<lambda>i. (CHR ''$'' # digits_str 10 i, format_int 2 5 i)) [0 .. 31])"
    unfolding registers_def by (rule map_of_SomeD)
  then have mem: "(r, v) \<in> set [(''$0'', ''00000''), (''$1'', ''00001''), (''$2'', ''00010''), (''$3'', ''00011''),
      (''$4'', ''00100''), (''$5'', ''00101''), (''$6'', ''00110''), (''$7'', ''00111''),
      (''$8'', ''01000''), (''$9'', ''01001''), (''$10'', ''01010''), (''$11'', ''01011''),
      (''$12'', ''01100''), (''$13'', ''01101''), (''$14'', ''01110''), (''$15'', ''01111''),
      (''$16'', ''10000''), (''$17'', ''10001''), (''$18'', ''10010''), (''$19'', ''10011''),
      (''$20'', ''10100''), (''$21'', ''10101''), (''$22'', ''10110''), (''$23'', ''10111''),
      (''$24'', ''11000''), (''$25'', ''11001''), (''$26'', ''11010''), (''$27'', ''11011''),
      (''$28'', ''11100''), (''$29'', ''11101''), (''$30'', ''11110''), (''$31'', ''11111'')]"
    by (simp only: registers_table)
  from mem show "CHR ''('' \<notin> set r" by auto
  from mem show "length v = 5" by auto
  from mem show "is_bits v" by (auto simp: is_bits_def)
qed


declare digits_str.simps [simp del]


lemma bits_value_simps [simp]:
  "bits_value acc [] = acc"
  "bits_value acc (c # cs) = bits_value (acc * 2 + (if c = CHR ''1'' then 1 else 0)) cs"
  by (simp_all add: bits_value_def)

lemma is_bits_simps [simp]:
  "is_bits []"
  "is_bits (c # cs) \<longleftrightarrow> (c = CHR ''0'' \<or> c = CHR ''1'') \<and> is_bits cs"
  "is_bits (xs @ ys) \<longleftrightarrow> is_bits xs \<and> is_bits ys"
  "is_bits (replicate k (CHR ''0''))"
  by (auto simp: is_bits_def list_all_iff)

lemma bits_value_append: "bits_value acc (xs @ ys) = bits_value (bits_value acc xs) ys"
  by (simp add: bits_value_def)

lemma bits_value_shift: "bits_value acc s = acc * 2 ^ length s + bits_value 0 s"
proof (induction s arbitrary: acc)
  case Nil
  show ?case by simp
next
  case (Cons c cs)
  have "bits_value acc (c # cs) = bits_value (acc * 2 + (if c = CHR ''1'' then 1 else 0)) cs"
    by simp
  also have "\<dots> = (acc * 2 + (if c = CHR ''1'' then 1 else 0)) * 2 ^ length cs + bits_value 0 cs"
    by (rule Cons.IH)
  also have "\<dots> = acc * 2 ^ length (c # cs) + ((if c = CHR ''1'' then 1 else 0) * 2 ^ length cs + bits_value 0 cs)"
    by (simp add: algebra_simps)
  also have "(if c = CHR ''1'' then 1 else 0) * 2 ^ length cs + bits_value 0 cs
               = bits_value 0 (c # cs)"
    using Cons.IH[of "if c = CHR ''1'' then 1 else 0"] by simp
  finally show ?case .
qed

lemma bits_value_zeros: "bits_value 0 (replicate k (CHR ''0'') @ s) = bits_value 0 s"
  by (induction k) simp_all

lemma digit_char_bit: "digit_char 0 = CHR ''0''" "digit_char 1 = CHR ''1''"
  by code_simp+

lemma digits_str_bits:
  "0 \<le> n \<Longrightarrow> is_bits (digits_str 2 n) \<and> bits_value 0 (digits_str 2 n) = n"
proof (induction "nat n" arbitrary: n rule: less_induct)
  case less
  show ?case
  proof (cases "n < 2")
    case True
    with less.prems have "n = 0 \<or> n = 1" by auto
    then show ?thesis by (auto simp: digits_str.simps[of 2 n] digit_char_bit)
  next
    case False
    then have d: "nat (n div 2) < nat n" "0 \<le> n div 2" by auto
    have m: "n mod 2 = 0 \<or> n mod 2 = 1" by auto
    from less.hyps[OF d] have ih: "is_bits (digits_str 2 (n div 2))"
      "bits_value 0 (digits_str 2 (n div 2)) = n div 2" by simp_all
    have unf: "digits_str 2 n = digits_str 2 (n div 2) @ [digit_char (n mod 2)]"
      using False by (simp add: digits_str.simps[of 2 n])
    have v: "bits_value 0 (digits_str 2 n) =
               n div 2 * 2 + (if digit_char (n mod 2) = CHR ''1'' then 1 else 0)"
      by (simp add: unf bits_value_append ih)
    have dg: "(if digit_char (n mod 2) = CHR ''1'' then 1 else 0) = n mod 2"
      and db: "digit_char (n mod 2) = CHR ''0'' \<or> digit_char (n mod 2) = CHR ''1''"
      using m by (auto simp: digit_char_bit)
    from v[unfolded dg] have "bits_value 0 (digits_str 2 n) = n" by simp
    with db ih(1) show ?thesis by (simp add: unf)
  qed
qed

lemma digits_str_length:
  "0 \<le> n \<Longrightarrow> n < 2 ^ w \<Longrightarrow> 0 < w \<Longrightarrow> length (digits_str 2 n) \<le> w"
proof (induction w arbitrary: n)
  case 0
  then show ?case by simp
next
  case (Suc w)
  show ?case
  proof (cases "n < 2")
    case True
    then show ?thesis by (simp add: digits_str.simps[of 2 n])
  next
    case False
    with Suc.prems have "0 \<le> n div 2" "n div 2 < 2 ^ w" "0 < w"
      by (auto intro: Nat.gr0I)
    from Suc.IH[OF this] False show ?thesis by (simp add: digits_str.simps[of 2 n])
  qed
qed

lemma format_int_bits:
  assumes "0 \<le> x" "x < 2 ^ w" "0 < w"
  shows "length (format_int 2 w x) = w" "is_bits (format_int 2 w x)"
    "bits_value 0 (format_int 2 w x) = x"
  using assms digits_str_length[OF assms] digits_str_bits[OF assms(1)]
  by (simp_all add: format_int_def zero_pad_def bits_value_zeros)

lemma and_ffff: "(x::int) AND 0xFFFF = x mod 2 ^ 16"
proof -
  have m: "mask 16 = (0xFFFF::int)" by (simp add: mask_eq_exp_minus_1)
  have "x AND mask 16 = take_bit 16 x" by (simp add: take_bit_eq_mask)
  then show ?thesis unfolding m by (simp add: take_bit_eq_mod)
qed

lemma bit_char_facts:
  assumes "c = CHR ''0'' \<or> c = CHR ''1''"
  shows "\<not> is_int_space c" "c \<noteq> CHR ''-''" "c \<noteq> CHR ''+''" "c \<noteq> CHR ''b''" "c \<noteq> CHR ''B''"
    "c \<noteq> CHR ''_''" "digit_val c = Some (if c = CHR ''1'' then 1 else 0)"
  using assms by (auto simp: is_int_space_def digit_val_def)

lemma digits_acc_bits:
  "is_bits s \<Longrightarrow> s \<noteq> [] \<or> prev \<Longrightarrow> digits_acc 2 prev acc s = Some (bits_value acc s)"
proof (induction s arbitrary: prev acc)
  case Nil
  then show ?case by simp
next
  case (Cons c cs)
  from Cons.prems(1) have c: "c = CHR ''0'' \<or> c = CHR ''1''" and cs: "is_bits cs" by simp_all
  from Cons.IH[OF cs, of True] bit_char_facts(6,7)[OF c] show ?case by auto
qed

lemma py_int_bits:
  assumes "is_bits s" "s \<noteq> []"
  shows "py_int 2 s = Some (bits_value 0 s)"
proof -
  from assms obtain c cs where s: "s = c # cs" by (cases s) auto
  from assms have h: "hd s = CHR ''0'' \<or> hd s = CHR ''1''"
    and l: "last s = CHR ''0'' \<or> last s = CHR ''1''"
    by (auto simp: is_bits_def list_all_iff)
  have st: "strip_with is_int_space s = s"
    using strip_with_id[OF assms(2)] bit_char_facts(1)[OF h] bit_char_facts(1)[OF l] by simp
  have pre: "strip_prefix 2 s = s"
  proof (cases cs)
    case Nil
    with s show ?thesis by (simp add: strip_prefix_def)
  next
    case (Cons c1 rest)
    with assms(1) s have "c1 = CHR ''0'' \<or> c1 = CHR ''1''" by simp
    from bit_char_facts(4,5)[OF this] s Cons show ?thesis by (simp add: strip_prefix_def)
  qed
  from h s have "c \<noteq> CHR ''-''" "c \<noteq> CHR ''+''" by auto
  with st pre s digits_acc_bits[OF assms(1), of False 0] assms(2) show ?thesis
    by (auto simp: py_int_def)
qed


lemma filter_bits: "is_bits s \<Longrightarrow> filter (\<lambda>c. c \<noteq> CHR ''_'') s = s"
  by (induction s) auto

lemma registers_at_Some: "registers r = Some v \<Longrightarrow> registers_at r = Inr v"
  by (simp add: registers_at_def)

lemma bind_err_simps [simp]:
  "bind_err (Inr x) f = f x"
  "bind_err (Inl e) f = Inl e"
  by (simp_all add: bind_err_def)

lemma operand_simps [simp]:
  "operand (a # xs) 0 = Inr a"
  "operand (a # b # xs) (Suc 0) = Inr b"
  "operand (a # b # c # xs) 2 = Inr c"
  by (simp_all add: operand_def)

lemma branch_opcodes:
  "opcodes_at ''beq'' = Inr ''000100''" "opcodes_at ''bne'' = Inr ''000101''"
  "func_codes ''beq'' = None" "func_codes ''bne'' = None"
  by code_simp+

lemma truthy_Some: "truthy (Some m) \<longleftrightarrow> m \<noteq> []"
  by (simp add: truthy_def)

lemma assemble_i_type_branch:
  assumes op: "opcode = ''beq'' \<or> opcode = ''bne''"
    and r1: "registers r1 = Some rs" and r2: "registers r2 = Some rt"
    and ne: "label_map \<noteq> []"
  shows "assemble_i_type opcode [r1, r2, lbl] (Some label_map) (Some B) =
           bind_err (label_map_at (Some label_map) lbl) (\<lambda>A.
           bind_err (opcodes_at opcode) (\<lambda>opc.
           Inr (opc @ ''_'' @ rs @ ''_'' @ rt @ ''_'' @ format_int 2 16 ((A - B) AND 0xFFFF))))"
proof -
  note np = registers_Some(1)[OF r2]
  from op have ops: "opcode \<in> set [''beq'', ''bne'']" by auto
  show ?thesis
    unfolding assemble_i_type_def
    using ops ne
    by (cases "label_map_at (Some label_map) lbl")
       (simp_all add: np truthy_Some registers_at_Some[OF r1] registers_at_Some[OF r2] Let_def
          del: set_simps)
qed

text \<open>
  C5: for \<open>beq\<close> or \<open>bne\<close> with register operands and a label bound to \<open>A\<close> in the
  label table, encoded at current address \<open>B\<close>, the encoder returns one word of 32 bits
  whose last 16 bits are the 16-bit binary form of \<open>(A - B) mod 2 ^ 16\<close>; read as a
  number, the word is congruent to \<open>A - B\<close> modulo \<open>2 ^ 16\<close>. \<open>A\<close> and \<open>B\<close> are
  arbitrary integers.
\<close>

theorem branch_offset_low16:
  assumes op: "opcode = ''beq'' \<or> opcode = ''bne''"
    and r1: "registers r1 = Some rs" and r2: "registers r2 = Some rt"
    and lbl: "map_of label_map lbl = Some A"
  shows "\<exists>word w.
           assemble_i_type opcode [r1, r2, lbl] (Some label_map) (Some B) = Inr word \<and>
           assemble_instruction opcode [r1, r2, lbl] (Some label_map) (Some B) = Inr (Some word) \<and>
           length (filter (\<lambda>c. c \<noteq> CHR ''_'') word) = 32 \<and>
           drop 16 (filter (\<lambda>c. c \<noteq> CHR ''_'') word) = format_int 2 16 ((A - B) mod 2 ^ 16) \<and>
           int_of 2 (filter (\<lambda>c. c \<noteq> CHR ''_'') word) = Inr w \<and>
           w mod 2 ^ 16 = (A - B) mod 2 ^ 16"
proof -
  define x where "x = (A - B) mod 2 ^ 16"
  have x: "0 \<le> x" "x < 2 ^ 16" by (simp_all add: x_def)
  define imm where "imm = format_int 2 16 x"
  have imm: "length imm = 16" "is_bits imm" "bits_value 0 imm = x"
    unfolding imm_def using format_int_bits[OF x] by simp_all
  from op obtain opc where opc: "opcodes_at opcode = Inr opc" "length opc = 6" "is_bits opc"
    by (auto simp: branch_opcodes)
  note rs = registers_Some(2,3)[OF r1] and rt = registers_Some(2,3)[OF r2]
  from lbl have ne: "label_map \<noteq> []" by auto
  define word where "word = opc @ ''_'' @ rs @ ''_'' @ rt @ ''_'' @ imm"
  have enc: "assemble_i_type opcode [r1, r2, lbl] (Some label_map) (Some B) = Inr word"
    by (simp add: assemble_i_type_branch[OF op r1 r2 ne] label_map_at_def lbl opc(1) and_ffff
          word_def imm_def x_def)
  have top: "assemble_instruction opcode [r1, r2, lbl] (Some label_map) (Some B) = Inr (Some word)"
    using op enc by (elim disjE; simp add: assemble_instruction_def branch_opcodes)
  define body where "body = opc @ rs @ rt"
  have body: "is_bits body" "length body = 16"
    using opc rs rt by (simp_all add: body_def)
  have flt: "filter (\<lambda>c. c \<noteq> CHR ''_'') word = body @ imm"
    by (simp add: word_def body_def filter_bits opc(3) rs(2) rt(2) imm(2))
  have hb: "is_bits (body @ imm)" "body @ imm \<noteq> []"
    using body imm by auto
  have "bits_value 0 (body @ imm) = bits_value (bits_value 0 body) imm"
    by (rule bits_value_append)
  also have "\<dots> = bits_value 0 body * 2 ^ length imm + bits_value 0 imm"
    by (rule bits_value_shift)
  finally have val: "bits_value 0 (body @ imm) = bits_value 0 body * 2 ^ 16 + x"
    by (simp only: imm)
  have "int_of 2 (filter (\<lambda>c. c \<noteq> CHR ''_'') word) = Inr (bits_value 0 (body @ imm))"
    by (simp only: flt int_of_def py_int_bits[OF hb] option.case)
  moreover have "bits_value 0 (body @ imm) mod 2 ^ 16 = (A - B) mod 2 ^ 16"
    using x by (simp add: val x_def)
  moreover have "length (filter (\<lambda>c. c \<noteq> CHR ''_'') word) = 32"
    by (simp add: flt body imm)
  moreover have "drop 16 (filter (\<lambda>c. c \<noteq> CHR ''_'') word) = format_int 2 16 ((A - B) mod 2 ^ 16)"
    by (simp add: flt body imm_def x_def)
  ultimately show ?thesis using enc top by blast
qed

theorem branch_offset_low16_witness:
  "\<exists>word w.
      assemble_i_type ''beq'' [''$1'', ''$2'', ''loop''] (Some [(''loop'', 0)]) (Some 3) = Inr word \<and>
      int_of 2 (filter (\<lambda>c. c \<noteq> CHR ''_'') word) = Inr w \<and> w mod 2 ^ 16 = (0 - 3) mod 2 ^ 16"
proof -
  have r1: "registers ''$1'' = Some ''00001''" and r2: "registers ''$2'' = Some ''00010''"
    by code_simp+
  have l: "map_of [(''loop'', 0::int)] ''loop'' = Some 0" by simp
  have o: "''beq'' = ''beq'' \<or> ''beq'' = ''bne''" by simp
  from branch_offset_low16[OF o r1 r2 l, of 3]
  show ?thesis by blast
qed

subsection \<open>Label misses\<close>

lemma registers_temp: "registers temp_reg = Some ''11001''" "registers ''$0'' = Some ''00000''"
  by code_simp+

lemma slt_codes: "func_codes_at ''slt'' = Inr ''101010''" "opcodes_at ''slt'' = Inr ''000000''"
  by code_simp+

lemma assemble_r_type_slt:
  assumes "registers a = Some va" "registers b = Some vb" "registers d = Some vd"
  shows "assemble_r_type ''slt'' [d, a, b] =
           Inr (''000000'' @ ''_'' @ va @ ''_'' @ vb @ ''_'' @ vd @ ''_'' @ ''00000'' @ ''_'' @ ''101010'')"
  by (simp add: assemble_r_type_def registers_at_Some[OF assms(1)] registers_at_Some[OF assms(2)]
        registers_at_Some[OF assms(3)] slt_codes)

lemma label_miss:
  assumes op: "opcode = ''beq'' \<or> opcode = ''bne''"
    and r1: "registers r1 = Some v1" and r2: "registers r2 = Some v2"
    and ne: "label_map \<noteq> []" and miss: "map_of label_map lbl = None"
  shows "assemble_i_type opcode [r1, r2, lbl] (Some label_map) (Some B)
           = Inl (KeyError_label_map lbl)"
  by (simp add: assemble_i_type_branch[OF op r1 r2 ne] label_map_at_def miss)

text \<open>
  C9, as amended: with a non-empty label table that does not bind the label, encoding
  \<open>beq\<close> or \<open>bne\<close> with register operands, or a conditional pseudo-branch with register
  operands, fails with the \<open>KeyError\<close> of the label table on that label, at every
  current address.
\<close>

theorem undefined_label_nonempty_table:
  assumes ne: "label_map \<noteq> []" and miss: "map_of label_map lbl = None"
    and r1: "registers r1 = Some v1" and r2: "registers r2 = Some v2"
  shows "assemble_i_type ''beq'' [r1, r2, lbl] (Some label_map) (Some B)
           = Inl (KeyError_label_map lbl) \<and>
         assemble_i_type ''bne'' [r1, r2, lbl] (Some label_map) (Some B)
           = Inl (KeyError_label_map lbl) \<and>
         assemble_instruction ''beq'' [r1, r2, lbl] (Some label_map) (Some B)
           = Inl (KeyError_label_map lbl) \<and>
         assemble_instruction ''bne'' [r1, r2, lbl] (Some label_map) (Some B)
           = Inl (KeyError_label_map lbl) \<and>
         assemble_instruction ''blt'' [r1, r2, lbl] (Some label_map) (Some B)
           = Inl (KeyError_label_map lbl) \<and>
         assemble_instruction ''bgt'' [r1, r2, lbl] (Some label_map) (Some B)
           = Inl (KeyError_label_map lbl) \<and>
         assemble_instruction ''ble'' [r1, r2, lbl] (Some label_map) (Some B)
           = Inl (KeyError_label_map lbl) \<and>
         assemble_instruction ''bge'' [r1, r2, lbl] (Some label_map) (Some B)
           = Inl (KeyError_label_map lbl)"
proof -
  have beq: "assemble_i_type ''beq'' [x, y, lbl] (Some label_map) (Some B)
               = Inl (KeyError_label_map lbl)"
    if "registers x = Some vx" "registers y = Some vy" for x y vx vy
    using label_miss[OF _ that ne miss, of "''beq''"] by simp
  have bne: "assemble_i_type ''bne'' [x, y, lbl] (Some label_map) (Some B)
               = Inl (KeyError_label_map lbl)"
    if "registers x = Some vx" "registers y = Some vy" for x y vx vy
    using label_miss[OF _ that ne miss, of "''bne''"] by simp
  note t = registers_temp
  show ?thesis
    by (simp add: assemble_instruction_def branch_opcodes beq[OF r1 r2] bne[OF r1 r2]
          beq[OF t] bne[OF t]
          assemble_r_type_slt[OF r1 r2 t(1)] assemble_r_type_slt[OF r2 r1 t(1)])
qed

theorem undefined_label_nonempty_table_witness:
  "assemble_instruction ''beq'' [''$1'', ''$2'', ''loop''] (Some [(''done'', 7)]) (Some 0)
     = Inl (KeyError_label_map ''loop'') \<and>
   assemble_instruction ''blt'' [''$1'', ''$2'', ''loop''] (Some [(''done'', 7)]) (Some 0)
     = Inl (KeyError_label_map ''loop'')"
proof -
  have r1: "registers ''$1'' = Some ''00001''" and r2: "registers ''$2'' = Some ''00010''"
    by code_simp+
  have ne: "[(''done'', 7::int)] \<noteq> []" by simp
  have miss: "map_of [(''done'', 7::int)] ''loop'' = None" by simp
  from undefined_label_nonempty_table[OF ne miss r1 r2, of 0] show ?thesis by blast
qed

text \<open>
  The claim as stated fails for the empty table: the test \<open>if ... and label_map and ...\<close>
  is false for an empty dictionary, the third operand is then parsed as a number, and
  the error is the \<open>ValueError\<close> of \<open>int\<close>.
\<close>

theorem undefined_label_empty_table_counterexample:
  "map_of ([] :: label_table) ''loop'' = None \<and>
   assemble_instruction ''beq'' [''$1'', ''$2'', ''loop''] (Some []) (Some 0) = Inl ValueError \<and>
   assemble_instruction ''beq'' [''$1'', ''$2'', ''loop''] (Some []) (Some 0)
     \<noteq> Inl (KeyError_label_map ''loop'')"
proof -
  have "assemble_instruction ''beq'' [''$1'', ''$2'', ''loop''] (Some []) (Some 0) = Inl ValueError"
    by code_simp
  then show ?thesis by simp
qed

subsection \<open>Shift instructions\<close>

text \<open>
  C6: the encoder treats \<open>sllv\<close>, \<open>srlv\<close> and \<open>srav\<close> like the shifts by a literal
  count and passes their third operand to \<open>int\<close>; with three register operands it
  raises \<open>ValueError\<close> and produces no word.
\<close>

theorem shift_by_register_fails:
  "assemble_instruction ''sllv'' [''$1'', ''$2'', ''$3''] (Some []) (Some 0) = Inl ValueError \<and>
   assemble_instruction ''srlv'' [''$1'', ''$2'', ''$3''] (Some []) (Some 0) = Inl ValueError \<and>
   assemble_instruction ''srav'' [''$1'', ''$2'', ''$3''] (Some []) (Some 0) = Inl ValueError \<and>
   main [''sllv $1,$2,$3''] = Inl ValueError"
  by code_simp

subsection \<open>The worked example\<close>

text \<open>
  C7, as stated, fails on the hexadecimal rendering: the word of \<open>add $1,$2,$3\<close> is
  not rendered as \<open>00443820\<close>.
\<close>

theorem add_example_hex_counterexample:
  "assemble_instruction ''add'' [''$1'', ''$2'', ''$3''] (Some []) (Some 0)
     = Inr (Some ''000000_00010_00011_00001_00000_100000'') \<and>
   hex_instruction ''000000_00010_00011_00001_00000_100000'' \<noteq> Inr ''00443820''"
proof -
  have "hex_instruction ''000000_00010_00011_00001_00000_100000'' = Inr ''00430820''"
    by code_simp
  moreover have "assemble_instruction ''add'' [''$1'', ''$2'', ''$3''] (Some []) (Some 0)
     = Inr (Some ''000000_00010_00011_00001_00000_100000'')"
    by code_simp
  ultimately show ?thesis by simp
qed

text \<open>
  C7, as amended: encoding \<open>add $1,$2,$3\<close> yields the field string
  \<open>000000_00010_00011_00001_00000_100000\<close>, its rendering in eight upper-case hexadecimal
  digits is \<open>00430820\<close>, and that is the line \<open>main\<close> writes for it.
\<close>

theorem add_example:
  "assemble_instruction ''add'' [''$1'', ''$2'', ''$3''] (Some []) (Some 0)
     = Inr (Some ''000000_00010_00011_00001_00000_100000'') \<and>
   hex_instruction ''000000_00010_00011_00001_00000_100000'' = Inr ''00430820'' \<and>
   main [''add $1,$2,$3'']
     = Inr [''add $1,$2,$3 --> [ binary: 000000_00010_00011_00001_00000_100000, hex: 00430820 ]''
            @ [newline]]"
  by code_simp

subsection \<open>Width of the emitted words\<close>

text \<open>
  C8: the encoder accepts a shift count of 32 and a literal jump target of \<open>2 ^ 26\<close>
  and returns words whose content has 33 binary digits; a negative shift count gives a
  field with a minus sign.
\<close>

theorem word_wider_than_32_bits:
  "assemble_instruction ''sll'' [''$1'', ''$2'', ''32''] (Some []) (Some 0)
     = Inr (Some ''000000_00000_00010_00001_100000_000000'') \<and>
   length (filter (\<lambda>c. c \<noteq> CHR ''_'') ''000000_00000_00010_00001_100000_000000'') = 33 \<and>
   assemble_instruction ''j'' [''67108864''] (Some []) (Some 0)
     = Inr (Some ''000010_100000000000000000000000000'') \<and>
   length (filter (\<lambda>c. c \<noteq> CHR ''_'') ''000010_100000000000000000000000000'') = 33 \<and>
   assemble_instruction ''sll'' [''$1'', ''$2'', ''-1''] (Some []) (Some 0)
     = Inr (Some ''000000_00000_00010_00001_-0001_000000'')"
  by code_simp

subsection \<open>The lines of an encoded instruction\<close>

lemma clean_simps [simp]:
  "clean []"
  "clean (c # cs) \<longleftrightarrow> \<not> is_linebreak c \<and> clean cs"
  "clean (xs @ ys) \<longleftrightarrow> clean xs \<and> clean ys"
  by (auto simp: clean_def)

lemma linebreak_chars [simp]:
  "is_linebreak (CHR 0x0A)" "is_linebreak (CHR 0x0D)"
  "\<not> is_linebreak (CHR ''0'')" "\<not> is_linebreak (CHR ''1'')"
  "\<not> is_linebreak (CHR ''_'')" "\<not> is_linebreak (CHR ''-'')"
  by (simp_all add: is_linebreak_def)

lemma is_bits_clean: "is_bits s \<Longrightarrow> clean s"
  by (induction s) auto

lemma splitlines_aux_clean:
  "clean s \<Longrightarrow> splitlines_aux cur s = (if cur @ s = [] then [] else [cur @ s])"
  by (induction cur s rule: splitlines_aux.induct) auto

lemma splitlines_aux_break:
  "clean a \<Longrightarrow> splitlines_aux cur (a @ CHR 0x0A # b) = (cur @ a) # splitlines_aux [] b"
proof (induction a arbitrary: cur)
  case Nil
  show ?case by (cases b) simp_all
next
  case (Cons c a)
  from Cons.prems have c: "\<not> is_linebreak c" and a: "clean a" by simp_all
  from c have ncr: "c \<noteq> CHR 0x0D" by auto
  obtain d cs where dcs: "a @ CHR 0x0A # b = d # cs" by (cases a) auto
  have "splitlines_aux cur ((c # a) @ CHR 0x0A # b) = splitlines_aux (cur @ [c]) (a @ CHR 0x0A # b)"
    using c ncr by (simp add: dcs)
  with Cons.IH[OF a, of "cur @ [c]"] show ?case by simp
qed

lemma splitlines_clean: "clean s \<Longrightarrow> s \<noteq> [] \<Longrightarrow> splitlines s = [s]"
  by (simp add: splitlines_def splitlines_aux_clean)

lemma splitlines_two:
  "clean a \<Longrightarrow> clean b \<Longrightarrow> b \<noteq> [] \<Longrightarrow> splitlines (a @ newline # b) = [a, b]"
  by (simp add: splitlines_def newline_def splitlines_aux_break splitlines_aux_clean)

lemma opcodes_at_bits: "opcodes_at k = Inr v \<Longrightarrow> is_bits v \<and> v \<noteq> []"
proof -
  assume "opcodes_at k = Inr v"
  then have "opcodes k = Some v" by (simp add: opcodes_at_def split: option.splits)
  from map_of_SomeD[OF this[unfolded opcodes_def]] show ?thesis by auto
qed

lemma func_codes_at_bits: "func_codes_at k = Inr v \<Longrightarrow> is_bits v \<and> v \<noteq> []"
proof -
  assume "func_codes_at k = Inr v"
  then have "func_codes k = Some v" by (simp add: func_codes_at_def split: option.splits)
  from map_of_SomeD[OF this[unfolded func_codes_def]] show ?thesis by auto
qed

lemma registers_at_bits: "registers_at r = Inr v \<Longrightarrow> is_bits v"
  using registers_Some(3)[of r v] by (simp add: registers_at_def split: option.splits)

lemma format_int_clean: "clean (format_int 2 w x)"
proof (cases "x < 0")
  case True
  then have "0 \<le> - x" by simp
  from digits_str_bits[OF this] True show ?thesis
    by (simp add: format_int_def zero_pad_def is_bits_clean)
next
  case False
  then have "0 \<le> x" by simp
  from digits_str_bits[OF this] False show ?thesis
    by (simp add: format_int_def zero_pad_def is_bits_clean)
qed

lemma bind_err_Inr: "bind_err m f = Inr y \<longleftrightarrow> (\<exists>x. m = Inr x \<and> f x = Inr y)"
  by (cases m) simp_all

lemma assemble_r_type_clean: "assemble_r_type opcode operands = Inr s \<Longrightarrow> clean s \<and> s \<noteq> []"
  unfolding assemble_r_type_def
  by (auto simp: bind_err_Inr format_int_clean is_bits_clean
        dest!: opcodes_at_bits func_codes_at_bits registers_at_bits split: if_splits)

lemma assemble_i_type_clean:
  "assemble_i_type opcode operands label_map current_address = Inr s \<Longrightarrow> clean s \<and> s \<noteq> []"
  unfolding assemble_i_type_def
  by (auto simp: bind_err_Inr format_int_clean is_bits_clean Let_def
        dest!: opcodes_at_bits registers_at_bits split: if_splits)

lemma assemble_j_type_clean:
  "assemble_j_type opcode operands label_map = Inr s \<Longrightarrow> clean s \<and> s \<noteq> []"
  unfolding assemble_j_type_def
  by (auto simp: bind_err_Inr format_int_clean is_bits_clean
        dest!: opcodes_at_bits split: if_splits)


lemma map_sum_Some_Inr: "map_sum id Some m = Inr (Some b) \<longleftrightarrow> m = Inr b"
  by (cases m) simp_all

lemma pseudo_branch_lines:
  assumes "assemble_r_type ''slt'' xs = Inr slt"
    and "assemble_i_type bop ys label_map current_address = Inr br"
  shows "splitlines (slt @ [newline] @ br) = [slt, br]"
  using assemble_r_type_clean[OF assms(1)] assemble_i_type_clean[OF assms(2)]
  by (simp add: splitlines_two)

lemma assemble_instruction_pseudo:
  assumes "assemble_instruction opcode operands label_map current_address = Inr (Some b)"
    and "opcode \<in> set pseudo_branches"
  shows "\<exists>slt br bop o2. operand operands 2 = Inr o2 \<and> (bop = ''bne'' \<or> bop = ''beq'') \<and>
           assemble_i_type bop [temp_reg, ''$0'', o2] label_map current_address = Inr br \<and>
           b = slt @ [newline] @ br \<and> splitlines b = [slt, br]"
proof -
  from assms(2) consider "opcode = ''blt''" | "opcode = ''bgt''" | "opcode = ''ble''" | "opcode = ''bge''"
    by (auto simp: pseudo_branches_def)
  then show ?thesis
  proof cases
    case 1
    with assms(1) obtain o0 o1 slt o2 br where
      "assemble_r_type ''slt'' [temp_reg, o0, o1] = Inr slt" "operand operands 2 = Inr o2"
      "assemble_i_type ''bne'' [temp_reg, ''$0'', o2] label_map current_address = Inr br"
      "b = slt @ [newline] @ br"
      by (auto simp: assemble_instruction_def bind_err_Inr)
    with pseudo_branch_lines[OF this(1,3)] show ?thesis by blast
  next
    case 2
    with assms(1) obtain o0 o1 slt o2 br where
      "assemble_r_type ''slt'' [temp_reg, o1, o0] = Inr slt" "operand operands 2 = Inr o2"
      "assemble_i_type ''bne'' [temp_reg, ''$0'', o2] label_map current_address = Inr br"
      "b = slt @ [newline] @ br"
      by (auto simp: assemble_instruction_def bind_err_Inr)
    with pseudo_branch_lines[OF this(1,3)] show ?thesis by blast
  next
    case 3
    with assms(1) obtain o0 o1 slt o2 br where
      "assemble_r_type ''slt'' [temp_reg, o1, o0] = Inr slt" "operand operands 2 = Inr o2"
      "assemble_i_type ''beq'' [temp_reg, ''$0'', o2] label_map current_address = Inr br"
      "b = slt @ [newline] @ br"
      by (auto simp: assemble_instruction_def bind_err_Inr)
    with pseudo_branch_lines[OF this(1,3)] show ?thesis by blast
  next
    case 4
    with assms(1) obtain o0 o1 slt o2 br where
      "assemble_r_type ''slt'' [temp_reg, o0, o1] = Inr slt" "operand operands 2 = Inr o2"
      "assemble_i_type ''beq'' [temp_reg, ''$0'', o2] label_map current_address = Inr br"
      "b = slt @ [newline] @ br"
      by (auto simp: assemble_instruction_def bind_err_Inr)
    with pseudo_branch_lines[OF this(1,3)] show ?thesis by blast
  qed
qed

lemma nop_clean: "clean ''00000000000000000000000000000000''"
  by simp

lemma assemble_instruction_plain:
  assumes run: "assemble_instruction opcode operands label_map current_address = Inr (Some b)"
    and np: "opcode \<notin> set pseudo_branches"
  shows "splitlines b = [b]"
proof -
  from np have ne: "opcode \<noteq> ''blt''" "opcode \<noteq> ''bgt''" "opcode \<noteq> ''ble''" "opcode \<noteq> ''bge''"
    by (auto simp: pseudo_branches_def)
  consider (nop) "opcode = ''nop''" | (sgt) "opcode = ''sgt''" | (move) "opcode = ''move''"
    | (li) "opcode = ''li''"
    | (other) "opcode \<noteq> ''nop''" "opcode \<noteq> ''sgt''" "opcode \<noteq> ''move''" "opcode \<noteq> ''li''"
    by blast
  then have "clean b \<and> b \<noteq> []"
  proof cases
    case nop
    with run show ?thesis by (auto simp: assemble_instruction_def)
  next
    case sgt
    with run obtain xs where "assemble_r_type ''slt'' xs = Inr b"
      by (auto simp: assemble_instruction_def bind_err_Inr map_sum_Some_Inr)
    then show ?thesis by (rule assemble_r_type_clean)
  next
    case move
    with run obtain xs where "assemble_r_type ''add'' xs = Inr b"
      by (auto simp: assemble_instruction_def bind_err_Inr map_sum_Some_Inr)
    then show ?thesis by (rule assemble_r_type_clean)
  next
    case li
    with run obtain xs where "assemble_i_type ''addi'' xs None None = Inr b"
      by (auto simp: assemble_instruction_def bind_err_Inr map_sum_Some_Inr)
    then show ?thesis by (rule assemble_i_type_clean)
  next
    case other
    from run have "assemble_r_type opcode operands = Inr b \<or>
        assemble_i_type opcode operands label_map current_address = Inr b \<or>
        assemble_j_type opcode operands label_map = Inr b"
      unfolding assemble_instruction_def
      by (simp only: other ne if_False map_sum_Some_Inr split: if_splits) simp_all
    then show ?thesis
      using assemble_r_type_clean assemble_i_type_clean assemble_j_type_clean by blast
  qed
  then show ?thesis by (simp add: splitlines_clean)
qed

lemma write_words_one:
  "write_words line [w] = Inr written \<longleftrightarrow>
     (\<exists>h. hex_instruction w = Inr h \<and> written = [output_line line w h])"
  by (auto simp: bind_err_Inr)

lemma write_words_two:
  "write_words line [w1, w2] = Inr written \<longleftrightarrow>
     (\<exists>h1 h2. hex_instruction w1 = Inr h1 \<and> hex_instruction w2 = Inr h2 \<and>
        written = [output_line line w1 h1, output_line line w2 h2])"
  by (auto simp: bind_err_Inr)

subsection \<open>The tokens of a line in the two passes\<close>

lemma hash_not_space [simp]: "\<not> is_space (CHR ''#'')" "\<not> is_space (CHR '','')" "is_space (CHR '' '')"
  by (simp_all add: is_space_def)

lemma split_aux_cur:
  "cur \<noteq> [] \<Longrightarrow> \<exists>rest ts. split_aux cur s = (cur @ rest) # ts"
proof (induction s arbitrary: cur)
  case Nil
  then show ?case by simp
next
  case (Cons c s)
  show ?case
  proof (cases "is_space c")
    case True
    with Cons.prems show ?thesis by simp
  next
    case False
    from Cons.IH[of "cur @ [c]"] obtain rest ts where "split_aux (cur @ [c]) s = ((cur @ [c]) @ rest) # ts"
      by auto
    with False show ?thesis by simp
  qed
qed

lemma split_aux_takeWhile:
  "split_aux cur (takeWhile (\<lambda>c. c \<noteq> CHR ''#'') s) = p # ps \<Longrightarrow>
     \<exists>t ts. split_aux cur s = t # ts \<and> (t = p \<or> (ps = [] \<and> CHR ''#'' \<in> set t))"
proof (induction s arbitrary: cur)
  case Nil
  then show ?case by simp
next
  case (Cons c s)
  show ?case
  proof (cases "c = CHR ''#''")
    case True
    with Cons.prems have cur: "cur \<noteq> []" "p = cur" "ps = []" by (auto split: if_splits)
    from split_aux_cur[of "cur @ [c]" s] obtain rest ts
      where "split_aux (cur @ [c]) s = ((cur @ [c]) @ rest) # ts" by auto
    with True cur show ?thesis by simp
  next
    case nh: False
    show ?thesis
    proof (cases "is_space c")
      case True
      show ?thesis
      proof (cases "cur = []")
        case True
        with \<open>is_space c\<close> nh Cons.prems Cons.IH[of "[]"] show ?thesis by simp
      next
        case False
        with \<open>is_space c\<close> nh Cons.prems show ?thesis by simp
      qed
    next
      case False
      with nh Cons.prems Cons.IH[of "cur @ [c]"] show ?thesis by simp
    qed
  qed
qed

lemma split_aux_spaces:
  "\<forall>c\<in>set r. is_space c \<Longrightarrow> split_aux cur r = (if cur = [] then [] else [cur])"
  by (induction r arbitrary: cur) auto

lemma split_aux_trailing:
  "\<forall>c\<in>set r. is_space c \<Longrightarrow> split_aux cur (x @ r) = split_aux cur x"
  by (induction x arbitrary: cur) (auto simp: split_aux_spaces)

lemma split_aux_leading:
  "\<forall>c\<in>set l. is_space c \<Longrightarrow> split_aux [] (l @ x) = split_aux [] x"
  by (induction l) auto

lemma strip_with_decomp:
  "\<exists>l r. s = l @ strip_with sp s @ r \<and> (\<forall>c\<in>set l. sp c) \<and> (\<forall>c\<in>set r. sp c)"
proof -
  define d where "d = dropWhile sp s"
  have s: "s = takeWhile sp s @ d" by (simp add: d_def)
  have "rev d = takeWhile sp (rev d) @ dropWhile sp (rev d)" by simp
  then have "d = rev (dropWhile sp (rev d)) @ rev (takeWhile sp (rev d))"
    by (metis rev_append rev_rev_ident)
  then have d: "d = strip_with sp s @ rev (takeWhile sp (rev d))"
    by (simp add: strip_with_def d_def)
  have l: "\<forall>c\<in>set (takeWhile sp s). sp c" by (auto dest: set_takeWhileD)
  have r: "\<forall>c\<in>set (rev (takeWhile sp (rev d))). sp c" by (auto dest: set_takeWhileD)
  from s d have "s = takeWhile sp s @ strip_with sp s @ rev (takeWhile sp (rev d))" by simp
  with l r show ?thesis by blast
qed

lemma replace_commas_space: "is_space c \<Longrightarrow> is_space (if c = CHR '','' then CHR '' '' else c)"
  by simp

lemma tokens_strip:
  "split_ws (replace_commas (strip u)) = split_ws (replace_commas u)"
proof -
  from strip_with_decomp[of u is_space] obtain l r where
    u: "u = l @ strip u @ r" and l: "\<forall>c\<in>set l. is_space c" and r: "\<forall>c\<in>set r. is_space c"
    by (auto simp: strip_def)
  have l': "\<forall>c\<in>set (replace_commas l). is_space c" using l by (auto simp: replace_commas_def)
  have r': "\<forall>c\<in>set (replace_commas r). is_space c" using r by (auto simp: replace_commas_def)
  have "replace_commas u = replace_commas l @ replace_commas (strip u) @ replace_commas r"
    by (subst u) (simp add: replace_commas_def)
  then have "split_ws (replace_commas u) =
      split_aux [] (replace_commas l @ (replace_commas (strip u) @ replace_commas r))"
    by (simp add: split_ws_def)
  also have "\<dots> = split_aux [] (replace_commas (strip u) @ replace_commas r)"
    by (rule split_aux_leading[OF l'])
  also have "\<dots> = split_aux [] (replace_commas (strip u))"
    by (rule split_aux_trailing[OF r'])
  finally show ?thesis by (simp add: split_ws_def)
qed

lemma replace_commas_takeWhile:
  "replace_commas (takeWhile (\<lambda>c. c \<noteq> CHR ''#'') s) =
     takeWhile (\<lambda>c. c \<noteq> CHR ''#'') (replace_commas s)"
  by (induction s) (auto simp: replace_commas_def)

lemma tokens_before_comment:
  assumes "split_ws (replace_commas (strip (takeWhile (\<lambda>c. c \<noteq> CHR ''#'') line))) = p # ps"
  shows "\<exists>t ts. split_ws (replace_commas line) = t # ts \<and>
           (t = p \<or> (ps = [] \<and> CHR ''#'' \<in> set t))"
proof -
  from assms have "split_ws (replace_commas (takeWhile (\<lambda>c. c \<noteq> CHR ''#'') line)) = p # ps"
    by (simp only: tokens_strip)
  then have "split_aux [] (takeWhile (\<lambda>c. c \<noteq> CHR ''#'') (replace_commas line)) = p # ps"
    by (simp only: replace_commas_takeWhile split_ws_def)
  from split_aux_takeWhile[OF this] show ?thesis by (simp only: split_ws_def)
qed

lemma lower_hash: "CHR ''#'' \<in> set t \<Longrightarrow> lower t \<notin> set pseudo_branches"
proof -
  assume "CHR ''#'' \<in> set t"
  then have "lower_char (CHR ''#'') \<in> set (lower t)" by (auto simp: lower_def)
  moreover have "lower_char (CHR ''#'') = CHR ''#''" by (simp add: lower_char_def)
  ultimately have "CHR ''#'' \<in> set (lower t)" by simp
  then show ?thesis by (auto simp: pseudo_branches_def)
qed

subsection \<open>One line of the second pass\<close>

lemma strip_with_hd:
  assumes "strip_with sp s \<noteq> []"
  shows "\<not> sp (hd (strip_with sp s))"
proof -
  define d where "d = dropWhile sp s"
  have "rev d = takeWhile sp (rev d) @ dropWhile sp (rev d)" by simp
  then have "d = rev (dropWhile sp (rev d)) @ rev (takeWhile sp (rev d))"
    by (metis rev_append rev_rev_ident)
  then have d: "d = strip_with sp s @ rev (takeWhile sp (rev d))"
    by (simp add: strip_with_def d_def)
  with assms have "d \<noteq> []" and hd: "hd d = hd (strip_with sp s)"
    by (metis append_is_Nil_conv, metis hd_append2)
  from \<open>d \<noteq> []\<close> have "\<not> sp (hd d)" unfolding d_def by (rule hd_dropWhile)
  with hd show ?thesis by simp
qed

lemma strip_nonempty:
  assumes "x \<noteq> []" "\<not> is_space (hd x)"
  shows "strip x \<noteq> []"
proof -
  have front: "dropWhile is_space x = x" using assms by (simp add: dropWhile_eq_self_iff)
  from assms have "hd x \<in> set (rev x)" by simp
  with assms(2) have "dropWhile is_space (rev x) \<noteq> []"
    by (auto simp: dropWhile_eq_Nil_conv simp del: set_rev)
  then show ?thesis by (simp add: strip_def strip_with_def front)
qed

lemma line_before_comment_nonempty:
  assumes "strip raw \<noteq> []" "\<not> startswith_hash (strip raw)"
  shows "strip (takeWhile (\<lambda>c. c \<noteq> CHR ''#'') (strip raw)) \<noteq> []"
proof -
  from assms obtain c cs where l: "strip raw = c # cs" "c \<noteq> CHR ''#''"
    by (cases "strip raw") (auto simp: startswith_hash_def)
  from strip_with_hd[of is_space raw] assms(1) l have "\<not> is_space c" by (simp add: strip_def)
  with l show ?thesis by (intro strip_nonempty) simp_all
qed

lemma second_pass_line_cases:
  assumes run: "second_pass_line lm (pc, out) raw = Inr (pc', out')"
  obtains (skip) "pc' = pc" "out' = out"
      "strip raw = [] \<or> endswith_colon (strip raw) \<or> startswith_hash (strip raw)"
  | (encode) opcode operands b written where
      "strip raw \<noteq> []" "\<not> endswith_colon (strip raw)" "\<not> startswith_hash (strip raw)"
      "parse_instruction (strip (takeWhile (\<lambda>c. c \<noteq> CHR ''#'') (strip raw))) = Inr (opcode, operands)"
      "assemble_instruction opcode operands (Some lm)
         (Some (if opcode \<in> set pseudo_branches then pc + 1 else pc)) = Inr (Some b)"
      "write_words (strip (takeWhile (\<lambda>c. c \<noteq> CHR ''#'') (strip raw))) (splitlines b) = Inr written"
      "out' = out @ written"
      "pc' = (if opcode \<in> set pseudo_branches then pc + 1 else pc) + 1"
proof (cases "strip raw = [] \<or> endswith_colon (strip raw) \<or> startswith_hash (strip raw)")
  case True
  with run have "pc' = pc" "out' = out"
    by (auto simp: second_pass_line_def Let_def split: if_splits)
  from this True show ?thesis by (rule skip)
next
  case False
  then have f: "strip raw \<noteq> []" "\<not> endswith_colon (strip raw)" "\<not> startswith_hash (strip raw)"
    by simp_all
  note ne = line_before_comment_nonempty[OF f(1,3)]
  define line where "line = strip (takeWhile (\<lambda>c. c \<noteq> CHR ''#'') (strip raw))"
  from run f ne have
    "bind_err (parse_instruction line) (\<lambda>(opcode, operands).
           let pc = (if opcode \<in> set pseudo_branches then pc + 1 else pc) in
           bind_err (assemble_instruction opcode operands (Some lm) (Some pc))
             (\<lambda>binary_instructions.
           case binary_instructions of
             None \<Rightarrow> Inl AttributeError
           | Some b \<Rightarrow>
               bind_err (write_words line (splitlines b)) (\<lambda>written.
               Inr (pc + 1, out @ written)))) = Inr (pc', out')"
    by (simp add: second_pass_line_def Let_def line_def)
  then obtain opcode operands b written where
    "parse_instruction line = Inr (opcode, operands)"
    "assemble_instruction opcode operands (Some lm)
         (Some (if opcode \<in> set pseudo_branches then pc + 1 else pc)) = Inr (Some b)"
    "write_words line (splitlines b) = Inr written"
    "out' = out @ written"
    "pc' = (if opcode \<in> set pseudo_branches then pc + 1 else pc) + 1"
    by (auto simp: bind_err_Inr Let_def split: option.splits)
  with f show ?thesis unfolding line_def by (rule encode)
qed

lemma first_pass_line_skip:
  assumes "strip raw = [] \<or> endswith_colon (strip raw) \<or> startswith_hash (strip raw)"
  shows "snd (first_pass_line (m, pc) raw) = pc"
proof (cases "strip raw = []")
  case True
  then show ?thesis by (simp add: first_pass_line_def split_ws_def replace_commas_def)
next
  case False
  with assms show ?thesis
    by (auto simp: first_pass_line_def Let_def split: list.splits)
qed

lemma first_pass_line_instr:
  assumes "strip raw \<noteq> []" "\<not> endswith_colon (strip raw)" "\<not> startswith_hash (strip raw)"
    and "split_ws (replace_commas (strip raw)) = t # ts"
  shows "snd (first_pass_line (m, pc) raw) = pc + (if lower t \<in> set pseudo_branches then 2 else 1)"
  using assms by (simp add: first_pass_line_def Let_def)


lemma parse_instruction_Inr:
  "parse_instruction line = Inr (opcode, operands) \<longleftrightarrow>
     (\<exists>p. split_ws (replace_commas line) = p # operands \<and> opcode = lower p)"
  by (auto simp: parse_instruction_def Let_def split: list.splits)

lemma second_pass_line_step:
  assumes run: "second_pass_line lm (pc, out) raw = Inr (pc', out')"
  shows "pc' - pc = int (length out') - int (length out) \<and>
         snd (first_pass_line (m, pc) raw) = pc' \<and>
         ((pc' = pc \<and> out' = out) \<or>
          (\<exists>opcode operands line.
             line = strip (takeWhile (\<lambda>c. c \<noteq> CHR ''#'') (strip raw)) \<and>
             parse_instruction line = Inr (opcode, operands) \<and>
             (if opcode \<in> set pseudo_branches
              then (\<exists>slt br bop o2 h1 h2.
                      operand operands 2 = Inr o2 \<and> (bop = ''bne'' \<or> bop = ''beq'') \<and>
                      assemble_instruction opcode operands (Some lm) (Some (pc + 1))
                        = Inr (Some (slt @ [newline] @ br)) \<and>
                      assemble_i_type bop [temp_reg, ''$0'', o2] (Some lm) (Some (pc + 1)) = Inr br \<and>
                      out' = out @ [output_line line slt h1, output_line line br h2] \<and>
                      pc' = pc + 2)
              else (\<exists>w h.
                      assemble_instruction opcode operands (Some lm) (Some pc) = Inr (Some w) \<and>
                      out' = out @ [output_line line w h] \<and> pc' = pc + 1))))"
  using run
proof (cases rule: second_pass_line_cases)
  case skip
  with first_pass_line_skip[OF skip(3), of m pc] show ?thesis by simp
next
  case (encode opcode operands b written)
  define line where "line = strip (takeWhile (\<lambda>c. c \<noteq> CHR ''#'') (strip raw))"
  note parse = encode(4)[folded line_def] and wr = encode(6)[folded line_def]
  from parse obtain p where p: "split_ws (replace_commas line) = p # operands" "opcode = lower p"
    by (auto simp: parse_instruction_Inr)
  from tokens_before_comment[OF p(1)[unfolded line_def]] obtain t ts where
    t: "split_ws (replace_commas (strip raw)) = t # ts"
      "t = p \<or> (operands = [] \<and> CHR ''#'' \<in> set t)" by blast
  note fp = first_pass_line_instr[OF encode(1,2,3) t(1), of m pc]
  show ?thesis
  proof (cases "opcode \<in> set pseudo_branches")
    case True
    with encode(5) have asm: "assemble_instruction opcode operands (Some lm) (Some (pc + 1)) = Inr (Some b)"
      by simp
    from assemble_instruction_pseudo[OF asm True] obtain slt br bop o2 where
      ps: "operand operands 2 = Inr o2" "bop = ''bne'' \<or> bop = ''beq''"
        "assemble_i_type bop [temp_reg, ''$0'', o2] (Some lm) (Some (pc + 1)) = Inr br"
        "b = slt @ [newline] @ br" "splitlines b = [slt, br]" by blast
    from write_words_two[THEN iffD1, OF wr[unfolded ps(5)]] obtain h1 h2 where
      w: "written = [output_line line slt h1, output_line line br h2]"
      by blast
    from ps(1) have "operands \<noteq> []" by (auto simp: operand_def)
    with t(2) p(2) True have "lower t \<in> set pseudo_branches" by simp
    with fp have f: "snd (first_pass_line (m, pc) raw) = pc + 2" by simp
    from True encode(8) have pc': "pc' = pc + 2" by simp
    have "\<exists>slt br bop o2 h1 h2.
            operand operands 2 = Inr o2 \<and> (bop = ''bne'' \<or> bop = ''beq'') \<and>
            assemble_instruction opcode operands (Some lm) (Some (pc + 1))
              = Inr (Some (slt @ [newline] @ br)) \<and>
            assemble_i_type bop [temp_reg, ''$0'', o2] (Some lm) (Some (pc + 1)) = Inr br \<and>
            out' = out @ [output_line line slt h1, output_line line br h2] \<and>
            pc' = pc + 2"
      using ps(1,2,3) asm[unfolded ps(4)] encode(7)[unfolded w] pc' by blast
    with True parse have
      "\<exists>opcode operands line'.
         line' = line \<and> parse_instruction line' = Inr (opcode, operands) \<and>
         (if opcode \<in> set pseudo_branches
          then (\<exists>slt br bop o2 h1 h2.
                  operand operands 2 = Inr o2 \<and> (bop = ''bne'' \<or> bop = ''beq'') \<and>
                  assemble_instruction opcode operands (Some lm) (Some (pc + 1))
                    = Inr (Some (slt @ [newline] @ br)) \<and>
                  assemble_i_type bop [temp_reg, ''$0'', o2] (Some lm) (Some (pc + 1)) = Inr br \<and>
                  out' = out @ [output_line line' slt h1, output_line line' br h2] \<and>
                  pc' = pc + 2)
          else (\<exists>w h.
                  assemble_instruction opcode operands (Some lm) (Some pc) = Inr (Some w) \<and>
                  out' = out @ [output_line line' w h] \<and> pc' = pc + 1))"
      by (intro exI[of _ opcode] exI[of _ operands] exI[of _ line]) simp
    with f pc' encode(7) w show ?thesis unfolding line_def by simp
  next
    case False
    with encode(5) have asm: "assemble_instruction opcode operands (Some lm) (Some pc) = Inr (Some b)"
      by simp
    from assemble_instruction_plain[OF asm False] have sl: "splitlines b = [b]" .
    from write_words_one[THEN iffD1, OF wr[unfolded sl]] obtain h
      where w: "written = [output_line line b h]"
      by blast
    from t(2) p(2) False lower_hash[of t] have "lower t \<notin> set pseudo_branches" by auto
    with fp have f: "snd (first_pass_line (m, pc) raw) = pc + 1" by simp
    from False encode(8) have pc': "pc' = pc + 1" by simp
    have "\<exists>w h. assemble_instruction opcode operands (Some lm) (Some pc) = Inr (Some w) \<and>
            out' = out @ [output_line line w h] \<and> pc' = pc + 1"
      using asm encode(7)[unfolded w] pc' by blast
    with False parse have
      "\<exists>opcode operands line'.
         line' = line \<and> parse_instruction line' = Inr (opcode, operands) \<and>
         (if opcode \<in> set pseudo_branches
          then (\<exists>slt br bop o2 h1 h2.
                  operand operands 2 = Inr o2 \<and> (bop = ''bne'' \<or> bop = ''beq'') \<and>
                  assemble_instruction opcode operands (Some lm) (Some (pc + 1))
                    = Inr (Some (slt @ [newline] @ br)) \<and>
                  assemble_i_type bop [temp_reg, ''$0'', o2] (Some lm) (Some (pc + 1)) = Inr br \<and>
                  out' = out @ [output_line line' slt h1, output_line line' br h2] \<and>
                  pc' = pc + 2)
          else (\<exists>w h.
                  assemble_instruction opcode operands (Some lm) (Some pc) = Inr (Some w) \<and>
                  out' = out @ [output_line line' w h] \<and> pc' = pc + 1))"
      by (intro exI[of _ opcode] exI[of _ operands] exI[of _ line]) simp
    with f pc' encode(7) w show ?thesis unfolding line_def by simp
  qed
qed

subsection \<open>The running address of the second pass\<close>

lemma second_pass_inv:
  "second_pass lm (pc, out) lines = Inr (pc', out') \<Longrightarrow>
     pc' - pc = int (length out') - int (length out) \<and>
     snd (foldl first_pass_line (m, pc) lines) = pc'"
proof (induction lines arbitrary: pc out m)
  case Nil
  then show ?case by simp
next
  case (Cons raw rest)
  from Cons.prems obtain pc1 out1 where
    one: "second_pass_line lm (pc, out) raw = Inr (pc1, out1)"
    and more: "second_pass lm (pc1, out1) rest = Inr (pc', out')"
    by (auto simp: bind_err_Inr)
  from second_pass_line_step[OF one, of m] have
    s: "pc1 - pc = int (length out1) - int (length out)"
       "snd (first_pass_line (m, pc) raw) = pc1" by simp_all
  then have fp: "first_pass_line (m, pc) raw = (fst (first_pass_line (m, pc) raw), pc1)"
    by (metis prod.collapse)
  from Cons.IH[OF more, of "fst (first_pass_line (m, pc) raw)"] s(1) fp
  show ?case by simp
qed

lemma second_pass_snoc:
  "second_pass lm st (lines @ [raw]) =
     bind_err (second_pass lm st lines) (\<lambda>st'. second_pass_line lm st' raw)"
proof (induction lines arbitrary: st)
  case Nil
  show ?case by (cases "second_pass_line lm st raw") simp_all
next
  case (Cons a lines)
  show ?case by (cases "second_pass_line lm st a") (simp_all add: Cons.IH)
qed

text \<open>
  C4: in every state the second pass reaches, after the lines \<open>lines\<close>, the running
  address \<open>pc\<close> is the number of words written so far, and it is the address the first
  pass gives to the next line. When the next line is processed, either nothing is encoded
  and the state is unchanged, or the line is an instruction: for one of the four
  conditional pseudo-branches the encoder is called with \<open>pc + 1\<close>, two words are
  written, the second being the branch word, encoded at the address of its own slot (the
  first-pass address of the line plus 1), and the address advances by 2 in all; for every
  other instruction the encoder is called with \<open>pc\<close>, one word is written and the address
  advances by 1. Afterwards the address is again the number of words written.
\<close>

theorem running_address_counts_words:
  assumes before: "second_pass label_map (0, []) lines = Inr (pc, out)"
    and this_line: "second_pass_line label_map (pc, out) raw = Inr (pc', out')"
  shows "pc = int (length out) \<and> snd (first_pass lines) = pc \<and>
         second_pass label_map (0, []) (lines @ [raw]) = Inr (pc', out') \<and>
         pc' = int (length out') \<and> snd (first_pass (lines @ [raw])) = pc' \<and>
         ((pc' = pc \<and> out' = out) \<or>
          (\<exists>opcode operands line.
             line = strip (takeWhile (\<lambda>c. c \<noteq> CHR ''#'') (strip raw)) \<and>
             parse_instruction line = Inr (opcode, operands) \<and>
             (if opcode \<in> set pseudo_branches
              then (\<exists>slt br bop o2 h1 h2.
                      operand operands 2 = Inr o2 \<and> (bop = ''bne'' \<or> bop = ''beq'') \<and>
                      assemble_instruction opcode operands (Some label_map)
                        (Some (int (length out) + 1)) = Inr (Some (slt @ [newline] @ br)) \<and>
                      assemble_i_type bop [temp_reg, ''$0'', o2] (Some label_map)
                        (Some (snd (first_pass lines) + 1)) = Inr br \<and>
                      out' = out @ [output_line line slt h1, output_line line br h2] \<and>
                      pc' = pc + 2)
              else (\<exists>w h.
                      assemble_instruction opcode operands (Some label_map)
                        (Some (int (length out))) = Inr (Some w) \<and>
                      out' = out @ [output_line line w h] \<and> pc' = pc + 1))))"
proof -
  from second_pass_inv[OF before, of "[]"] have
    pc: "pc = int (length out)" and fp: "snd (first_pass lines) = pc"
    by (simp_all add: first_pass_def)
  have after: "second_pass label_map (0, []) (lines @ [raw]) = Inr (pc', out')"
    by (simp add: second_pass_snoc before this_line)
  from second_pass_inv[OF after, of "[]"] have
    pc': "pc' = int (length out')" and fp': "snd (first_pass (lines @ [raw])) = pc'"
    by (simp_all add: first_pass_def)
  from second_pass_line_step[OF this_line, of "[]"] have
    "(pc' = pc \<and> out' = out) \<or>
          (\<exists>opcode operands line.
             line = strip (takeWhile (\<lambda>c. c \<noteq> CHR ''#'') (strip raw)) \<and>
             parse_instruction line = Inr (opcode, operands) \<and>
             (if opcode \<in> set pseudo_branches
              then (\<exists>slt br bop o2 h1 h2.
                      operand operands 2 = Inr o2 \<and> (bop = ''bne'' \<or> bop = ''beq'') \<and>
                      assemble_instruction opcode operands (Some label_map) (Some (pc + 1))
                        = Inr (Some (slt @ [newline] @ br)) \<and>
                      assemble_i_type bop [temp_reg, ''$0'', o2] (Some label_map) (Some (pc + 1)) = Inr br \<and>
                      out' = out @ [output_line line slt h1, output_line line br h2] \<and>
                      pc' = pc + 2)
              else (\<exists>w h.
                      assemble_instruction opcode operands (Some label_map) (Some pc) = Inr (Some w) \<and>
                      out' = out @ [output_line line w h] \<and> pc' = pc + 1)))"
    by (elim conjE)
  then have "(pc' = pc \<and> out' = out) \<or>
          (\<exists>opcode operands line.
             line = strip (takeWhile (\<lambda>c. c \<noteq> CHR ''#'') (strip raw)) \<and>
             parse_instruction line = Inr (opcode, operands) \<and>
             (if opcode \<in> set pseudo_branches
              then (\<exists>slt br bop o2 h1 h2.
                      operand operands 2 = Inr o2 \<and> (bop = ''bne'' \<or> bop = ''beq'') \<and>
                      assemble_instruction opcode operands (Some label_map)
                        (Some (int (length out) + 1)) = Inr (Some (slt @ [newline] @ br)) \<and>
                      assemble_i_type bop [temp_reg, ''$0'', o2] (Some label_map)
                        (Some (snd (first_pass lines) + 1)) = Inr br \<and>
                      out' = out @ [output_line line slt h1, output_line line br h2] \<and>
                      pc' = pc + 2)
              else (\<exists>w h.
                      assemble_instruction opcode operands (Some label_map)
                        (Some (int (length out))) = Inr (Some w) \<and>
                      out' = out @ [output_line line w h] \<and> pc' = pc + 1)))"
    unfolding fp pc[symmetric] .
  with pc fp after pc' fp' show ?thesis by blast
qed

theorem running_address_counts_words_witness:
  "second_pass [(''loop'', 0)] (0, []) [''loop:'', ''add $1,$2,$3'']
     = Inr (1, [''add $1,$2,$3 --> [ binary: 000000_00010_00011_00001_00000_100000, hex: 00430820 ]''
                @ [newline]]) \<and>
   second_pass_line [(''loop'', 0)]
     (1, [''add $1,$2,$3 --> [ binary: 000000_00010_00011_00001_00000_100000, hex: 00430820 ]''
          @ [newline]])
     ''blt $1,$2,loop''
     = Inr (3, [''add $1,$2,$3 --> [ binary: 000000_00010_00011_00001_00000_100000, hex: 00430820 ]''
                @ [newline],
                ''blt $1,$2,loop --> [ binary: 000000_00001_00010_11001_00000_101010, hex: 0022C82A ]''
                @ [newline],
                ''blt $1,$2,loop --> [ binary: 000101_11001_00000_1111111111111110, hex: 1720FFFE ]''
                @ [newline]]) \<and>
   snd (first_pass [''loop:'', ''add $1,$2,$3'']) = 1 \<and>
   snd (first_pass ([''loop:'', ''add $1,$2,$3''] @ [''blt $1,$2,loop''])) = 3"
proof -
  let ?R1 = "''add $1,$2,$3 --> [ binary: 000000_00010_00011_00001_00000_100000, hex: 00430820 ]''
                @ [newline]"
  let ?R2 = "''blt $1,$2,loop --> [ binary: 000000_00001_00010_11001_00000_101010, hex: 0022C82A ]''
                @ [newline]"
  let ?R3 = "''blt $1,$2,loop --> [ binary: 000101_11001_00000_1111111111111110, hex: 1720FFFE ]''
                @ [newline]"
  have before: "second_pass [(''loop'', 0)] (0, []) [''loop:'', ''add $1,$2,$3''] = Inr (1, [?R1])"
    by code_simp
  have this_line: "second_pass_line [(''loop'', 0)] (1, [?R1]) ''blt $1,$2,loop''
                     = Inr (3, [?R1, ?R2, ?R3])"
    by code_simp
  from running_address_counts_words[OF before this_line] before this_line
  show ?thesis by blast
qed

end
